theory Spec2Isabelle
  imports Main
begin

section \<open>RESP messages and the collaborators of the proxy\<close>

text \<open>
  Go's \<^verbatim>\<open>[]byte\<close> and \<^verbatim>\<open>string\<close> are both byte sequences; they are modelled
  as \<^typ>\<open>string\<close>.
\<close>

type_synonym bytes = string

datatype go_error = Error string

datatype panic = IndexOutOfRange | SliceBoundsOutOfRange | NilDereference

text \<open>
  Modelled from the spec: the \<^verbatim>\<open>redis\<close> package (the type \<^verbatim>\<open>Message\<close> with its
  fields \<^verbatim>\<open>Type\<close>, \<^verbatim>\<open>Value\<close>, \<^verbatim>\<open>Array\<close> and the methods \<^verbatim>\<open>IsError\<close>,
  \<^verbatim>\<open>IsArray\<close>, \<^verbatim>\<open>IsBulkBytes\<close>, \<^verbatim>\<open>NewArray\<close>) is not among the sources. A RESP
  message is a simple string, an error, an integer, a bulk string or an array;
  \<open>TypeUnknown\<close> stands for any other value of the type byte. Like the Go
  struct, every message carries all three fields.
\<close>

datatype resp_type = TypeString | TypeError | TypeInt | TypeBulkBytes | TypeArray | TypeUnknown

datatype message = Message (Type: resp_type) (Value: bytes) (Array: "message list")

definition IsError :: "message \<Rightarrow> bool" where
  "IsError m = (Type m = TypeError)"

definition IsArray :: "message \<Rightarrow> bool" where
  "IsArray m = (Type m = TypeArray)"

definition IsBulkBytes :: "message \<Rightarrow> bool" where
  "IsBulkBytes m = (Type m = TypeBulkBytes)"

definition NewArray :: "message list \<Rightarrow> message" where
  "NewArray ms = Message TypeArray [] ms"

text \<open>
  What the code calls but the sources do not hold is a parameter of the model:
  the key extraction \<^verbatim>\<open>Message.Keys\<close>, the RESP codec (\<^verbatim>\<open>EncodeToBytes\<close> returns
  its bytes together with an optional error, as the Go function returns a pair;
  \<^verbatim>\<open>DecodeFromBytes\<close> returns a message or fails), the size check of
  \<^verbatim>\<open>freecache.Set\<close> (it refuses an entry that is too large), the parser of a
  cluster-slots reply (\<^verbatim>\<open>radix.ClusterTopo.UnmarshalRESP\<close>, giving the address of
  every slot, or failing) and whether the construction of a listener with its
  pool fails.
\<close>

record deps =
  Keys :: "message \<Rightarrow> bytes list"
  EncodeToBytes :: "message \<Rightarrow> bytes \<times> go_error option"
  DecodeFromBytes :: "bytes \<Rightarrow> message option"
  fc_rejects :: "bytes \<Rightarrow> bytes \<Rightarrow> bool"
  UnmarshalSlots :: "bytes \<Rightarrow> go_error + string list"
  createFails :: "string \<Rightarrow> string \<Rightarrow> bool"

section \<open>The cache (src/unnamed/part_000)\<close>

text \<open>
  The \<^verbatim>\<open>freecache\<close> store is a finite map from key to stored bytes. Expiry and
  eviction under memory pressure only remove entries at moments the code does not
  control; they are not part of the model. Every call the code makes to the
  store is recorded in \<open>calls\<close>, and every line the cache writes to its error
  log in \<open>errlog\<close> (the message and the key).
\<close>

datatype fc_call = FcGet bytes | FcSet bytes bytes | FcDel bytes | FcClear

record Cache =
  entries :: "bytes \<rightharpoonup> bytes"
  calls :: "fc_call list"
  errlog :: "(string \<times> bytes) list"

text \<open>
  \<^verbatim>\<open>func (c *Cache) set(key []byte, mm *redis.Message)\<close>: the encoding error is
  logged and the function goes on to write the bytes it got.
\<close>

definition Cache_set :: "deps \<Rightarrow> Cache \<Rightarrow> bytes \<Rightarrow> message \<Rightarrow> Cache" where
  "Cache_set d c key mm =
     (let (b, err) = EncodeToBytes d mm;
          c1 = (if err \<noteq> None
                then c\<lparr>errlog := errlog c @ [(''error encoding redis message'', key)]\<rparr>
                else c);
          c2 = c1\<lparr>calls := calls c1 @ [FcSet key b]\<rparr>
      in if fc_rejects d key b
         then c2\<lparr>errlog := errlog c2 @ [(''error writing to cache'', key)]\<rparr>
         else c2\<lparr>entries := (entries c2)(key \<mapsto> b)\<rparr>)"

text \<open>
  \<^verbatim>\<open>func (c *Cache) Set(keys [][]byte, m *redis.Message)\<close>. The loop over the
  elements of an array is \<open>Cache_Set_loop\<close>, with the index \<open>i\<close> of the next
  element. \<^verbatim>\<open>keys[i]\<close> and \<^verbatim>\<open>keys[0]\<close> panic out of range; the cache as it was
  at that moment is returned with the panic.
\<close>

fun Cache_Set :: "deps \<Rightarrow> Cache \<Rightarrow> bytes list \<Rightarrow> message \<Rightarrow> Cache \<times> panic option"
  and Cache_Set_loop :: "deps \<Rightarrow> Cache \<Rightarrow> bytes list \<Rightarrow> nat \<Rightarrow> message list \<Rightarrow> Cache \<times> panic option"
  where
  "Cache_Set d c keys (Message t v arr) =
     (if IsError (Message t v arr) then (c, None)
      else if IsArray (Message t v arr) then Cache_Set_loop d c keys 0 arr
      else (case keys of
              [] \<Rightarrow> (c, Some IndexOutOfRange)
            | k # _ \<Rightarrow> (Cache_set d c k (Message t v arr), None)))"
| "Cache_Set_loop d c keys i [] = (c, None)"
| "Cache_Set_loop d c keys i (mm # ms) =
     (if i < length keys
      then (case Cache_Set d c [keys ! i] mm of
              (c', None) \<Rightarrow> Cache_Set_loop d c' keys (i + 1) ms
            | (c', Some e) \<Rightarrow> (c', Some e))
      else (c, Some IndexOutOfRange))"

text \<open>
  \<^verbatim>\<open>func (c *Cache) Get(key []byte) (*redis.Message, error)\<close>: \<open>None\<close> is the
  error result (the key is not in the store, or its bytes do not decode).
\<close>

definition Cache_Get :: "deps \<Rightarrow> Cache \<Rightarrow> bytes \<Rightarrow> message option \<times> Cache" where
  "Cache_Get d c key =
     (let c' = c\<lparr>calls := calls c @ [FcGet key]\<rparr>
      in case entries c key of
           None \<Rightarrow> (None, c')
         | Some cached \<Rightarrow> (DecodeFromBytes d cached, c'))"

text \<open>
  \<^verbatim>\<open>func (c *Cache) GetAll(keys [][]byte) ([]*redis.Message, error)\<close>: the loop
  returns the error of the first key that misses.
\<close>

fun Cache_GetAll :: "deps \<Rightarrow> Cache \<Rightarrow> bytes list \<Rightarrow> message list option \<times> Cache" where
  "Cache_GetAll d c [] = (Some [], c)"
| "Cache_GetAll d c (kk # ks) =
     (case Cache_Get d c kk of
        (None, c') \<Rightarrow> (None, c')
      | (Some cached, c') \<Rightarrow>
          (case Cache_GetAll d c' ks of
             (None, c'') \<Rightarrow> (None, c'')
           | (Some rest, c'') \<Rightarrow> (Some (cached # rest), c'')))"

definition Cache_Del :: "Cache \<Rightarrow> bytes \<Rightarrow> bool \<times> Cache" where
  "Cache_Del c key =
     (entries c key \<noteq> None,
      c\<lparr>entries := (entries c)(key := None), calls := calls c @ [FcDel key]\<rparr>)"

definition Cache_Clear :: "Cache \<Rightarrow> Cache" where
  "Cache_Clear c = c\<lparr>entries := Map.empty, calls := calls c @ [FcClear]\<rparr>"


section \<open>Strings (the functions of Go's strings and strconv packages the proxy uses)\<close>

definition HasPrefix :: "string \<Rightarrow> string \<Rightarrow> bool" where
  "HasPrefix s pre = (take (length pre) s = pre)"

text \<open>\<^verbatim>\<open>strings.Split(s, sep)\<close> for a one-byte separator: the empty string gives one empty part.\<close>

fun Split :: "string \<Rightarrow> char \<Rightarrow> string list" where
  "Split [] sep = [[]]"
| "Split (x # xs) sep =
     (if x = sep then [] # Split xs sep
      else (case Split xs sep of
              [] \<Rightarrow> [[x]]
            | part # parts \<Rightarrow> (x # part) # parts))"

text \<open>\<^verbatim>\<open>strings.IndexByte(s, b)\<close>: the index of the first \<open>b\<close>, or -1.\<close>

fun IndexByte :: "string \<Rightarrow> char \<Rightarrow> int" where
  "IndexByte [] b = - 1"
| "IndexByte (x # xs) b =
     (if x = b then 0
      else (let r = IndexByte xs b in if r < 0 then - 1 else r + 1))"

text \<open>\<^verbatim>\<open>strings.Replace(s, old, new, -1)\<close> for one-byte \<open>old\<close> and \<open>new\<close>: every occurrence is replaced.\<close>

definition Replace :: "string \<Rightarrow> char \<Rightarrow> char \<Rightarrow> string" where
  "Replace s old new = map (\<lambda>ch. if ch = old then new else ch) s"

text \<open>\<^verbatim>\<open>strconv.Itoa\<close>: the decimal digits, after a minus sign for a negative number.\<close>

fun decimal :: "nat \<Rightarrow> string" where
  "decimal n =
     (if n < 10 then [''0123456789'' ! n]
      else decimal (n div 10) @ [''0123456789'' ! (n mod 10)])"

declare decimal.simps [simp del]

definition Itoa :: "int \<Rightarrow> string" where
  "Itoa i = (if i < 0 then CHR ''-'' # decimal (nat (- i)) else decimal (nat i))"

section \<open>The proxy (src/proxy/proxy.go)\<close>

definition CacheableCommands :: "string \<Rightarrow> bool" where
  "CacheableCommands cmd = (cmd = ''GET'' \<or> cmd = ''MGET'')"

text \<open>
  A listener is known by its local endpoint and the upstream its pool connects
  to; an invalidator by the number of its creation. Pointers that may be nil
  (\<^verbatim>\<open>*listener.Listener\<close>, \<^verbatim>\<open>*Invalidator\<close>) are options.

  The state of a \<^verbatim>\<open>Proxy\<close> holds the fields the modelled functions read or write,
  and the trace of what they do to the world: the listeners constructed
  (\<open>created\<close>, by local endpoint and upstream), the listeners and invalidators
  started (\<open>running\<close>, \<open>inv_running\<close>), the number of invalidators constructed
  (\<open>inv_created\<close>) and the batches sent through the round tripper (\<open>sent\<close>).
  The proxy's own log is not part of the model.
\<close>

datatype listener = Listener (local_of: string) (upstream_of: string)

record Proxy =
  database :: int
  cachePrefixes :: "string list option"
  LocalSocketPrefix :: string
  LocalSocketSuffix :: string
  listeners :: "string \<rightharpoonup> listener option"
  invalidators :: "string \<rightharpoonup> nat option"
  cache :: Cache
  created :: "(string \<times> string) list"
  running :: "listener option list"
  inv_created :: nat
  inv_running :: "nat option list"
  sent :: "message list list"

datatype 'a res = Return 'a | Panic panic

definition localSocketPathFromUpstream :: "string \<Rightarrow> int \<Rightarrow> string \<Rightarrow> string \<Rightarrow> string" where
  "localSocketPathFromUpstream upstream db prefix suffix =
     (let path = prefix @ Replace upstream CHR '':'' CHR ''-'';
          path = (if db > - 1 then path @ ''-'' @ Itoa db else path)
      in path @ suffix)"

text \<open>
  \<^verbatim>\<open>createListener\<close> builds the pool and the listener of an upstream; it returns
  nil with an error when one of the constructors fails.
\<close>

definition createListener :: "deps \<Rightarrow> Proxy \<Rightarrow> string \<Rightarrow> string \<Rightarrow> listener option \<times> Proxy" where
  "createListener d p local upstream =
     (let p' = p\<lparr>created := created p @ [(local, upstream)]\<rparr>
      in if createFails d local upstream then (None, p')
         else (Some (Listener local upstream), p'))"

definition runListener :: "Proxy \<Rightarrow> listener option \<Rightarrow> Proxy" where
  "runListener p l = p\<lparr>running := running p @ [l]\<rparr>"

definition runInvalidator :: "Proxy \<Rightarrow> nat option \<Rightarrow> Proxy" where
  "runInvalidator p i = p\<lparr>inv_running := inv_running p @ [i]\<rparr>"

text \<open>
  \<^verbatim>\<open>ensureListenerForUpstream\<close>: when the creation fails the error is logged, and
  the nil listener is stored and started all the same.
\<close>

definition ensureListenerForUpstream :: "deps \<Rightarrow> Proxy \<Rightarrow> string \<Rightarrow> string \<Rightarrow> Proxy" where
  "ensureListenerForUpstream d p upstream originalCmd =
     (case listeners p upstream of
        Some _ \<Rightarrow> p
      | None \<Rightarrow>
          (let local = localSocketPathFromUpstream upstream (database p)
                         (LocalSocketPrefix p) (LocalSocketSuffix p);
               (l, p1) = createListener d p local upstream;
               p2 = p1\<lparr>listeners := (listeners p1)(upstream \<mapsto> l)\<rparr>
           in runListener p2 l))"


subsection \<open>fetchFromCache\<close>

text \<open>
  The first loop of \<^verbatim>\<open>fetchFromCache\<close>, at index \<open>i\<close>: it gives up at the first
  command that is not cacheable (\<open>None\<close>: the nil key slice), and reading
  \<^verbatim>\<open>originalCmds[i]\<close> panics out of range.
\<close>

fun collectKeys :: "deps \<Rightarrow> string list \<Rightarrow> nat \<Rightarrow> message list \<Rightarrow> bytes list list option res" where
  "collectKeys d originalCmds i [] = Return (Some [])"
| "collectKeys d originalCmds i (m # mm) =
     (if i < length originalCmds
      then (if \<not> CacheableCommands (originalCmds ! i) then Return None
            else (case collectKeys d originalCmds (i + 1) mm of
                    Return (Some keys) \<Rightarrow> Return (Some (Keys d m # keys))
                  | r \<Rightarrow> r))
      else Panic IndexOutOfRange)"

text \<open>
  The second loop, at index \<open>i\<close>: \<open>None\<close> is the "not found" return, and
  \<^verbatim>\<open>cached[0]\<close> panics when a GET command has no key.
\<close>

fun fetchLoop :: "deps \<Rightarrow> Cache \<Rightarrow> string list \<Rightarrow> nat \<Rightarrow> bytes list list \<Rightarrow> message list option res \<times> Cache" where
  "fetchLoop d c originalCmds i [] = (Return (Some []), c)"
| "fetchLoop d c originalCmds i (k # keys) =
     (case Cache_GetAll d c k of
        (None, c') \<Rightarrow> (Return None, c')
      | (Some cached, c') \<Rightarrow>
          (if i < length originalCmds
           then (if originalCmds ! i = ''GET''
                 then (case cached of
                         [] \<Rightarrow> (Panic IndexOutOfRange, c')
                       | first # _ \<Rightarrow>
                           (case fetchLoop d c' originalCmds (i + 1) keys of
                              (Return (Some m), c'') \<Rightarrow> (Return (Some (first # m)), c'')
                            | r \<Rightarrow> r))
                 else (case fetchLoop d c' originalCmds (i + 1) keys of
                         (Return (Some m), c'') \<Rightarrow> (Return (Some (NewArray cached # m)), c'')
                       | r \<Rightarrow> r))
           else (Panic IndexOutOfRange, c')))"

text \<open>
  \<^verbatim>\<open>fetchFromCache\<close> returns the keys (nil when the batch is not cacheable), the
  cached messages (a nil slice is the empty list) and an error.
\<close>

definition fetchFromCache :: "deps \<Rightarrow> Cache \<Rightarrow> message list \<Rightarrow> string list \<Rightarrow>
    (bytes list list option \<times> message list \<times> go_error option) res \<times> Cache" where
  "fetchFromCache d c mm originalCmds =
     (case collectKeys d originalCmds 0 mm of
        Panic e \<Rightarrow> (Panic e, c)
      | Return None \<Rightarrow> (Return (None, [], Some (Error ''not cacheable'')), c)
      | Return (Some keys) \<Rightarrow>
          (case fetchLoop d c originalCmds 0 keys of
             (Panic e, c') \<Rightarrow> (Panic e, c')
           | (Return None, c') \<Rightarrow> (Return (Some keys, [], Some (Error ''not found'')), c')
           | (Return (Some m), c') \<Rightarrow> (Return (Some keys, m, None), c')))"

subsection \<open>interceptMessages\<close>

text \<open>
  One iteration of the loop over the responses ends in one of three ways: the
  loop goes on, the function returns, or it panics.
\<close>

datatype step = Continue | Stop "message list \<times> go_error option" | Crash panic

text \<open>The cache fill of one response: \<^verbatim>\<open>p.cache.Set(cacheKeys[i], m)\<close> when the keys are not nil.\<close>

definition fillCache :: "deps \<Rightarrow> Proxy \<Rightarrow> bytes list list option \<Rightarrow> nat \<Rightarrow> message \<Rightarrow> panic option \<times> Proxy" where
  "fillCache d p cacheKeys i m =
     (case cacheKeys of
        None \<Rightarrow> (None, p)
      | Some keys \<Rightarrow>
          (if i < length keys
           then (case Cache_Set d (cache p) (keys ! i) m of
                   (c', e) \<Rightarrow> (e, p\<lparr>cache := c'\<rparr>))
           else (Some IndexOutOfRange, p)))"

text \<open>The response to CLUSTER SLOTS: every path of this branch returns from the function.\<close>

definition observeSlots :: "deps \<Rightarrow> Proxy \<Rightarrow> string \<Rightarrow> message list \<Rightarrow> message \<Rightarrow> step \<times> Proxy" where
  "observeSlots d p originalCmd mm m =
     (case EncodeToBytes d m of
        (b, Some err) \<Rightarrow> (Stop (mm, Some err), p)
      | (b, None) \<Rightarrow>
          (case UnmarshalSlots d b of
             Inl err \<Rightarrow> (Stop (mm, Some err), p)
           | Inr slots \<Rightarrow>
               (Stop (mm, None),
                foldl (\<lambda>q addr. ensureListenerForUpstream d q addr originalCmd) p slots)))"

text \<open>
  The lines of a CLUSTER NODES response: the slice \<^verbatim>\<open>line[lt+1 : rt]\<close> panics
  when the first \<open>@\<close> stands before the first space.
\<close>

fun observeNodes :: "deps \<Rightarrow> Proxy \<Rightarrow> string \<Rightarrow> string list \<Rightarrow> panic option \<times> Proxy" where
  "observeNodes d p originalCmd [] = (None, p)"
| "observeNodes d p originalCmd (line # lines) =
     (let lt = IndexByte line CHR '' ''; rt = IndexByte line CHR ''@''
      in if lt > 0 \<and> rt > 0
         then (if lt + 1 \<le> rt
               then (let hostPort = take (nat rt - nat (lt + 1)) (drop (nat (lt + 1)) line)
                     in observeNodes d (ensureListenerForUpstream d p hostPort originalCmd)
                          originalCmd lines)
               else (Some SliceBoundsOutOfRange, p))
         else observeNodes d p originalCmd lines)"

text \<open>An error response that begins with MOVED or ASK.\<close>

definition observeRedirect :: "deps \<Rightarrow> Proxy \<Rightarrow> string \<Rightarrow> message list \<Rightarrow> message \<Rightarrow> step \<times> Proxy" where
  "observeRedirect d p originalCmd mm m =
     (if IsError m
      then (let msg = Value m
            in if HasPrefix msg ''MOVED'' \<or> HasPrefix msg ''ASK''
               then (let parts = Split msg CHR '' ''
                     in if length parts < 3 then (Stop (mm, None), p)
                        else (Continue,
                              ensureListenerForUpstream d p (parts ! 2)
                                (originalCmd @ '' '' @ parts ! 0)))
               else (Continue, p))
      else (Continue, p))"

definition respStep :: "deps \<Rightarrow> Proxy \<Rightarrow> bytes list list option \<Rightarrow> string list \<Rightarrow> message list \<Rightarrow>
    nat \<Rightarrow> message \<Rightarrow> step \<times> Proxy" where
  "respStep d p cacheKeys originalCmds mm i m =
     (case fillCache d p cacheKeys i m of
        (Some e, p1) \<Rightarrow> (Crash e, p1)
      | (None, p1) \<Rightarrow>
          (if i < length originalCmds
           then (if originalCmds ! i = ''CLUSTER SLOTS''
                 then observeSlots d p1 (originalCmds ! i) mm m
                 else (case (if originalCmds ! i = ''CLUSTER NODES'' \<and> IsBulkBytes m
                             then observeNodes d p1 (originalCmds ! i) (Split (Value m) (CHR 0x0A))
                             else (None, p1)) of
                         (Some e, p2) \<Rightarrow> (Crash e, p2)
                       | (None, p2) \<Rightarrow> observeRedirect d p2 (originalCmds ! i) mm m))
           else (Crash IndexOutOfRange, p1)))"

text \<open>The loop \<^verbatim>\<open>for i, m := range mm\<close> over the responses \<open>mm\<close>, from index \<open>i\<close> on.\<close>

fun respLoop :: "deps \<Rightarrow> Proxy \<Rightarrow> bytes list list option \<Rightarrow> string list \<Rightarrow> message list \<Rightarrow>
    nat \<Rightarrow> message list \<Rightarrow> (message list \<times> go_error option) res \<times> Proxy" where
  "respLoop d p cacheKeys originalCmds mm i [] = (Return (mm, None), p)"
| "respLoop d p cacheKeys originalCmds mm i (m # rest) =
     (case respStep d p cacheKeys originalCmds mm i m of
        (Continue, p') \<Rightarrow> respLoop d p' cacheKeys originalCmds mm (i + 1) rest
      | (Stop r, p') \<Rightarrow> (Return r, p')
      | (Crash e, p') \<Rightarrow> (Panic e, p'))"

text \<open>
  The round trip to the upstream and what follows it. The round tripper \<open>rt\<close>
  is a function of the batch it is given; the batch is recorded in \<open>sent\<close>.
\<close>

definition roundTrip :: "deps \<Rightarrow> Proxy \<Rightarrow> bytes list list option \<Rightarrow> string list \<Rightarrow> message list \<Rightarrow>
    (message list \<Rightarrow> message list \<times> go_error option) \<Rightarrow>
    (message list \<times> go_error option) res \<times> Proxy" where
  "roundTrip d p cacheKeys originalCmds mm rt =
     (let p1 = p\<lparr>sent := sent p @ [mm]\<rparr>
      in case rt mm of
           (mm', Some err) \<Rightarrow> (Return (mm', Some err), p1)
         | (mm', None) \<Rightarrow> respLoop d p1 cacheKeys originalCmds mm' 0 mm')"

definition interceptMessages :: "deps \<Rightarrow> Proxy \<Rightarrow> string list \<Rightarrow> message list \<Rightarrow>
    (message list \<Rightarrow> message list \<times> go_error option) \<Rightarrow>
    (message list \<times> go_error option) res \<times> Proxy" where
  "interceptMessages d p originalCmds mm rt =
     (case cachePrefixes p of
        None \<Rightarrow> roundTrip d p None originalCmds mm rt
      | Some _ \<Rightarrow>
          (case fetchFromCache d (cache p) mm originalCmds of
             (Panic e, c') \<Rightarrow> (Panic e, p\<lparr>cache := c'\<rparr>)
           | (Return (k, allCached, err), c') \<Rightarrow>
               (if err = None then (Return (allCached, None), p\<lparr>cache := c'\<rparr>)
                else roundTrip d (p\<lparr>cache := c'\<rparr>) k originalCmds mm rt)))"

subsection \<open>The dialer installed by createListener\<close>

text \<open>
  The pool calls the dialer for every new connection to the upstream. The
  outcomes of its network operations are parameters.

  Modelled from the spec: \<^verbatim>\<open>NewInvalidator\<close> and \<^verbatim>\<open>SubscribeCommand\<close>
  (the invalidator is not among the sources). A failed \<^verbatim>\<open>NewInvalidator\<close> is
  taken to return nil; the subscription command names the invalidator's
  connection identifier, so building it from a nil invalidator panics.
\<close>

record dial_io =
  dial_fails :: bool
  select_fails :: bool
  invalidator_fails :: bool
  tracking_fails :: bool

definition dialer :: "dial_io \<Rightarrow> Proxy \<Rightarrow> string \<Rightarrow> bool res \<times> Proxy" where
  "dialer io p upstream =
     (if dial_fails io then (Return False, p)
      else if database p > - 1 \<and> select_fails io then (Return False, p)
      else (case cachePrefixes p of
              None \<Rightarrow> (Return True, p)
            | Some prefixes \<Rightarrow>
                (let inv = (if invalidator_fails io then None else Some (inv_created p));
                     p1 = p\<lparr>inv_created := (if invalidator_fails io then inv_created p
                                              else inv_created p + 1)\<rparr>;
                     p2 = p1\<lparr>invalidators := (invalidators p1)(upstream \<mapsto> inv)\<rparr>;
                     p3 = runInvalidator p2 inv
                 in case inv of
                      None \<Rightarrow> (Panic NilDereference, p3)
                    | Some _ \<Rightarrow> (Return (\<not> tracking_fails io), p3))))"


section \<open>Predicates and sample values for the statements\<close>

text \<open>
  The bound on the key list under which \<^verbatim>\<open>Cache.Set\<close> reads no key out of
  range, for a key list of length \<open>n\<close>: the recursive call on an element of an
  array is given a list of one key.
\<close>

fun inRange :: "nat \<Rightarrow> message \<Rightarrow> bool" where
  "inRange n (Message t v arr) =
     (if IsError (Message t v arr) then True
      else if IsArray (Message t v arr) then length arr \<le> n \<and> (\<forall>e \<in> set arr. inRange 1 e)
      else 0 < n)"

text \<open>The values written to the store under the key \<open>k\<close>, in the order of the calls.\<close>

fun writes_of :: "bytes \<Rightarrow> fc_call list \<Rightarrow> bytes list" where
  "writes_of k [] = []"
| "writes_of k (FcSet k' b # cs) = (if k' = k then b # writes_of k cs else writes_of k cs)"
| "writes_of k (FcGet k' # cs) = writes_of k cs"
| "writes_of k (FcDel k' # cs) = writes_of k cs"
| "writes_of k (FcClear # cs) = writes_of k cs"

text \<open>
  The response the spec promises for a command served from the cache, from the
  keys of the command: the cached element of its key for GET, the array of the
  cached elements of its keys, in their order, for MGET.
\<close>

definition cachedResponse :: "deps \<Rightarrow> Cache \<Rightarrow> string \<Rightarrow> bytes list \<Rightarrow> message" where
  "cachedResponse d c cmd keys =
     (if cmd = ''GET'' then the (fst (Cache_Get d c (hd keys)))
      else NewArray (map (\<lambda>k. the (fst (Cache_Get d c k))) keys))"

text \<open>
  Sample collaborators, to evaluate the model on concrete inputs: the keys of
  a command are the values of its arguments, the codec writes a type character
  before the value (and the elements of an array one after the other) and reads
  scalar messages back, the store takes every entry, a cluster-slots reply
  names one node, and no listener fails to start.
\<close>

fun sampleEncode :: "message \<Rightarrow> bytes \<times> go_error option" where
  "sampleEncode (Message t v arr) =
     (case t of
        TypeString \<Rightarrow> (CHR ''+'' # v, None)
      | TypeError \<Rightarrow> (CHR ''-'' # v, None)
      | TypeInt \<Rightarrow> (CHR '':'' # v, None)
      | TypeBulkBytes \<Rightarrow> (CHR ''$'' # v, None)
      | TypeArray \<Rightarrow> (CHR ''*'' # concat (map (\<lambda>e. fst (sampleEncode e)) arr), None)
      | TypeUnknown \<Rightarrow> ([], Some (Error ''bad type'')))"

definition sampleDecode :: "bytes \<Rightarrow> message option" where
  "sampleDecode b =
     (case b of
        [] \<Rightarrow> None
      | t # v \<Rightarrow>
          (if t = CHR ''+'' then Some (Message TypeString v [])
           else if t = CHR ''-'' then Some (Message TypeError v [])
           else if t = CHR '':'' then Some (Message TypeInt v [])
           else if t = CHR ''$'' then Some (Message TypeBulkBytes v [])
           else None))"

definition sampleDeps :: deps where
  "sampleDeps =
     \<lparr>Keys = (\<lambda>m. map Value (tl (Array m))),
      EncodeToBytes = sampleEncode,
      DecodeFromBytes = sampleDecode,
      fc_rejects = (\<lambda>key b. False),
      UnmarshalSlots = (\<lambda>b. Inr [''10.0.0.1:7000'']),
      createFails = (\<lambda>local upstream. False)\<rparr>"

definition bulk :: "bytes \<Rightarrow> message" where
  "bulk v = Message TypeBulkBytes v []"

definition sampleCache :: Cache where
  "sampleCache = \<lparr>entries = [''foo'' \<mapsto> ''$bar''], calls = [], errlog = []\<rparr>"

definition sampleProxy :: Proxy where
  "sampleProxy =
     \<lparr>database = - 1, cachePrefixes = Some [''f''],
      LocalSocketPrefix = ''/var/tmp/redisbetween-'', LocalSocketSuffix = ''.sock'',
      listeners = Map.empty, invalidators = Map.empty, cache = sampleCache,
      created = [], running = [], inv_created = 0, inv_running = [], sent = []\<rparr>"


text \<open>A command as a client sends it: the array of its name and arguments, as bulk strings.\<close>

definition command :: "string list \<Rightarrow> message" where
  "command args = NewArray (map bulk args)"

text \<open>A dial on which every network operation succeeds.\<close>

definition dialOK :: dial_io where
  "dialOK = \<lparr>dial_fails = False, select_fails = False, invalidator_fails = False,
             tracking_fails = False\<rparr>"

section \<open>The local endpoint path\<close>

lemma Replace_no_old: "old \<notin> set s \<Longrightarrow> Replace s old new = s"
  by (induction s) (auto simp: Replace_def)

lemma Replace_Cons:
  "Replace (x # s) old new = (if x = old then new else x) # Replace s old new"
  by (simp add: Replace_def)

lemma Replace_append: "Replace (a @ b) old new = Replace a old new @ Replace b old new"
  by (simp add: Replace_def)

text \<open>
  C8. For an upstream address \<open>host:port\<close> in which neither the host nor the
  port holds a colon, and any prefix and suffix, the local endpoint path is
  prefix + host + "-" + port + suffix when the database index is -1, and
  prefix + host + "-" + port + "-" + decimal(db) + suffix when it is above -1.
\<close>

theorem C8_local_endpoint_path:
  assumes "CHR '':'' \<notin> set host" and "CHR '':'' \<notin> set port"
  shows "(db = - 1 \<longrightarrow>
            localSocketPathFromUpstream (host @ '':'' @ port) db prefix suffix
              = prefix @ host @ ''-'' @ port @ suffix)
       \<and> (db > - 1 \<longrightarrow>
            localSocketPathFromUpstream (host @ '':'' @ port) db prefix suffix
              = prefix @ host @ ''-'' @ port @ ''-'' @ Itoa db @ suffix)"
  using assms
  by (simp add: localSocketPathFromUpstream_def Replace_append Replace_Cons Replace_no_old)

theorem C8_local_endpoint_path_witness:
  "localSocketPathFromUpstream ''example.com:6379'' (- 1) ''/var/tmp/redisbetween-'' ''.sock''
     = ''/var/tmp/redisbetween-example.com-6379.sock''
   \<and> localSocketPathFromUpstream ''example.com:6379'' 3 ''/var/tmp/redisbetween-'' ''.sock''
     = ''/var/tmp/redisbetween-example.com-6379-3.sock''
   \<and> Itoa 3 = ''3''"
  using C8_local_endpoint_path [of "''example.com''" "''6379''" "- 1" "''/var/tmp/redisbetween-''" "''.sock''"]
    C8_local_endpoint_path [of "''example.com''" "''6379''" 3 "''/var/tmp/redisbetween-''" "''.sock''"]
  by (simp add: Itoa_def decimal.simps)

lemma Itoa_120: "Itoa 120 = ''120''"
  by (simp add: Itoa_def decimal.simps)

section \<open>Cache.Set\<close>

subsection \<open>Reads of the key list\<close>

lemma Set_panic_iff:
  "snd (Cache_Set d c keys m) = None \<longleftrightarrow> inRange (length keys) m"
  "snd (Cache_Set_loop d c keys i ms) = None \<longleftrightarrow>
     ((ms = [] \<or> i + length ms \<le> length keys) \<and> (\<forall>e \<in> set ms. inRange 1 e))"
proof (induction d c keys m and d c keys i ms rule: Cache_Set_Cache_Set_loop.induct)
  case (1 d c keys t v arr)
  then show ?case by (auto split: list.splits)
next
  case (2 d c keys i)
  then show ?case by simp
next
  case (3 d c keys i mm ms)
  then show ?case
    by (cases "Cache_Set d c [keys ! i] mm") (auto split: option.splits)
qed

text \<open>
  C9, as the claim states it, fails: the array of one element below has no more
  elements than there are keys, but its element is an array of two, and the
  recursive call reads \<^verbatim>\<open>keys[1]\<close> of a list of one key.
\<close>

theorem C9_length_precondition_counterexample:
  "\<not> IsError (NewArray [NewArray [bulk ''a'', bulk ''b'']])
   \<and> IsArray (NewArray [NewArray [bulk ''a'', bulk ''b'']])
   \<and> length (Array (NewArray [NewArray [bulk ''a'', bulk ''b'']])) \<le> length [''k'']
   \<and> snd (Cache_Set sampleDeps sampleCache [''k''] (NewArray [NewArray [bulk ''a'', bulk ''b'']]))
       = Some IndexOutOfRange"
  by (simp add: NewArray_def bulk_def IsError_def IsArray_def Cache_set_def sampleDeps_def)

lemma inRange_flat:
  "\<not> IsError m \<Longrightarrow> IsArray m \<Longrightarrow> \<forall>e \<in> set (Array m). \<not> IsArray e \<Longrightarrow>
     inRange n m \<longleftrightarrow> length (Array m) \<le> n"
proof -
  assume a: "\<not> IsError m" "IsArray m" "\<forall>e \<in> set (Array m). \<not> IsArray e"
  have "inRange 1 e" if "e \<in> set (Array m)" for e
  proof -
    from that a(3) have "\<not> IsArray e" by blast
    then show ?thesis by (cases e) simp
  qed
  with a(1,2) show ?thesis by (cases m) auto
qed

text \<open>
  Nesting arrays of one element does not help: the innermost array of two is
  still given a list of one key.
\<close>

lemma Set_nested_one_element_arrays_panic:
  "snd (Cache_Set sampleDeps sampleCache [''k'']
          (NewArray [NewArray [NewArray [bulk ''a'', bulk ''b'']]])) = Some IndexOutOfRange"
  by (simp add: NewArray_def bulk_def IsError_def IsArray_def Cache_set_def sampleDeps_def)

text \<open>
  C9, amended. \<^verbatim>\<open>Cache.Set\<close> reads no key out of range exactly when the message
  is an error, or is not an array and the key list is not empty, or is an
  array with no more elements than there are keys, each element of which meets
  this same condition for a list of one key (so at every depth of nesting).
  The length precondition of the claim is required for every message that is
  not an error, and it is enough when no element of the message is an array.
\<close>

theorem C9_Set_in_range_iff:
  "(snd (Cache_Set d c keys m) = None \<longleftrightarrow> inRange (length keys) m)
   \<and> (\<not> IsError m \<and> snd (Cache_Set d c keys m) = None \<longrightarrow>
        (if IsArray m then length (Array m) \<le> length keys else keys \<noteq> []))
   \<and> (\<not> IsError m \<and> (\<forall>e \<in> set (Array m). \<not> IsArray e)
        \<and> (if IsArray m then length (Array m) \<le> length keys else keys \<noteq> []) \<longrightarrow>
        snd (Cache_Set d c keys m) = None)"
proof (intro conjI impI)
  show iff: "snd (Cache_Set d c keys m) = None \<longleftrightarrow> inRange (length keys) m"
    by (rule Set_panic_iff)
  show "if IsArray m then length (Array m) \<le> length keys else keys \<noteq> []"
    if "\<not> IsError m \<and> snd (Cache_Set d c keys m) = None"
    using that iff by (cases m) (auto split: if_splits)
  show "snd (Cache_Set d c keys m) = None"
    if h: "\<not> IsError m \<and> (\<forall>e \<in> set (Array m). \<not> IsArray e)
        \<and> (if IsArray m then length (Array m) \<le> length keys else keys \<noteq> [])"
  proof (cases "IsArray m")
    case True
    with h inRange_flat [of m "length keys"] iff show ?thesis by simp
  next
    case False
    with h iff show ?thesis by (cases m) auto
  qed
qed

theorem C9_Set_in_range_iff_witness:
  "snd (Cache_Set sampleDeps sampleCache [''a'', ''b''] (NewArray [bulk ''1'', bulk ''2''])) = None
   \<and> inRange 2 (NewArray [bulk ''1'', bulk ''2''])
   \<and> snd (Cache_Set sampleDeps sampleCache [''a''] (NewArray [bulk ''1'', bulk ''2'']))
       = Some IndexOutOfRange
   \<and> \<not> inRange 1 (NewArray [bulk ''1'', bulk ''2''])"
proof -
  let ?m = "NewArray [bulk ''1'', bulk ''2'']"
  have h: "\<not> IsError ?m \<and> (\<forall>e \<in> set (Array ?m). \<not> IsArray e)
        \<and> (if IsArray ?m then length (Array ?m) \<le> length [''a'', ''b''] else [''a'', ''b''] \<noteq> [])"
    by (simp add: NewArray_def bulk_def IsError_def IsArray_def)
  from C9_Set_in_range_iff [of sampleDeps sampleCache "[''a'', ''b'']" ?m] h
  have a: "snd (Cache_Set sampleDeps sampleCache [''a'', ''b''] ?m) = None" by blast
  have b: "inRange 2 ?m" by (simp add: NewArray_def bulk_def IsError_def IsArray_def)
  have nb: "\<not> inRange 1 ?m" by (simp add: NewArray_def bulk_def IsError_def IsArray_def)
  have c: "snd (Cache_Set sampleDeps sampleCache [''a''] ?m) = Some IndexOutOfRange"
    by (simp add: NewArray_def bulk_def IsError_def IsArray_def Cache_set_def sampleDeps_def)
  from a b c nb show ?thesis by simp
qed


subsection \<open>Errors are not stored\<close>

lemma writes_of_append: "writes_of k (xs @ ys) = writes_of k xs @ writes_of k ys"
  by (induction k xs rule: writes_of.induct) auto

lemma Cache_set_frame:
  "k \<noteq> key \<Longrightarrow> entries (Cache_set d c key m) k = entries c k"
  "k \<noteq> key \<Longrightarrow> writes_of k (calls (Cache_set d c key m)) = writes_of k (calls c)"
  by (auto simp: Cache_set_def Let_def writes_of_append split: prod.splits)

lemma Set_frame:
  "k \<notin> set keys \<Longrightarrow>
     entries (fst (Cache_Set d c keys m)) k = entries c k
     \<and> writes_of k (calls (fst (Cache_Set d c keys m))) = writes_of k (calls c)"
  "k \<notin> set keys \<Longrightarrow>
     entries (fst (Cache_Set_loop d c keys i ms)) k = entries c k
     \<and> writes_of k (calls (fst (Cache_Set_loop d c keys i ms))) = writes_of k (calls c)"
proof (induction d c keys m and d c keys i ms rule: Cache_Set_Cache_Set_loop.induct)
  case (1 d c keys t v arr)
  then show ?case by (auto simp: Cache_set_frame split: list.splits)
next
  case (2 d c keys i)
  then show ?case by simp
next
  case (3 d c keys i mm ms)
  show ?case
  proof (cases "i < length keys")
    case True
    obtain c' e where r: "Cache_Set d c [keys ! i] mm = (c', e)" by force
    from True "3.prems" have "k \<notin> set [keys ! i]" by auto
    with "3.IH"(1) True r have c': "entries c' k = entries c k"
      "writes_of k (calls c') = writes_of k (calls c)" by auto
    show ?thesis
    proof (cases e)
      case None
      with "3.IH"(2) [OF True r [symmetric] None "3.prems"] c' r True show ?thesis by auto
    next
      case (Some a)
      with c' r True show ?thesis by simp
    qed
  next
    case False
    then show ?thesis by simp
  qed
qed

lemma Set_error: "IsError m \<Longrightarrow> Cache_Set d c keys m = (c, None)"
  by (cases m) simp

lemma Set_loop_skips_errors:
  "(\<forall>j < length ms. i + j < length keys \<longrightarrow> keys ! (i + j) = k \<longrightarrow> IsError (ms ! j)) \<Longrightarrow>
     entries (fst (Cache_Set_loop d c keys i ms)) k = entries c k
     \<and> writes_of k (calls (fst (Cache_Set_loop d c keys i ms))) = writes_of k (calls c)"
proof (induction ms arbitrary: c i)
  case Nil
  then show ?case by simp
next
  case (Cons mm ms)
  show ?case
  proof (cases "i < length keys")
    case True
    obtain c' e where r: "Cache_Set d c [keys ! i] mm = (c', e)" by force
    have c': "entries c' k = entries c k \<and> writes_of k (calls c') = writes_of k (calls c)"
    proof (cases "keys ! i = k")
      case True
      with Cons.prems \<open>i < length keys\<close> have "IsError mm" by force
      with r show ?thesis by (simp add: Set_error)
    next
      case False
      then have "k \<notin> set [keys ! i]" by auto
      from Set_frame(1) [OF this, of d c mm] r show ?thesis by simp
    qed
    have rest: "\<forall>j < length ms. (i + 1) + j < length keys \<longrightarrow> keys ! ((i + 1) + j) = k \<longrightarrow> IsError (ms ! j)"
    proof (intro allI impI)
      fix j assume "j < length ms" "(i + 1) + j < length keys" "keys ! ((i + 1) + j) = k"
      with Cons.prems [rule_format, of "Suc j"] show "IsError (ms ! j)" by simp
    qed
    show ?thesis
    proof (cases e)
      case None
      with Cons.IH [OF rest, of c'] c' r True show ?thesis by simp
    next
      case (Some a)
      with c' r True show ?thesis by simp
    qed
  next
    case False
    then show ?thesis by simp
  qed
qed

text \<open>
  C3. \<^verbatim>\<open>Cache.Set\<close> of a message that is an error returns with the cache as it
  was (no call to the store, no log line). \<^verbatim>\<open>Cache.Set\<close> of an array stores
  nothing for an element that is an error: when every element paired with the
  key \<open>k\<close> is an error, the entry of \<open>k\<close> is unchanged and no write to \<open>k\<close>
  is made.
\<close>

theorem C3_no_error_caching:
  "(IsError m \<longrightarrow> Cache_Set d c keys m = (c, None))
   \<and> (IsArray m \<and> (\<forall>i < length (Array m). i < length keys \<longrightarrow> keys ! i = k \<longrightarrow> IsError (Array m ! i)) \<longrightarrow>
        entries (fst (Cache_Set d c keys m)) k = entries c k
        \<and> writes_of k (calls (fst (Cache_Set d c keys m))) = writes_of k (calls c))"
proof (intro conjI impI)
  assume "IsError m" then show "Cache_Set d c keys m = (c, None)" by (rule Set_error)
next
  assume a: "IsArray m \<and> (\<forall>i < length (Array m). i < length keys \<longrightarrow> keys ! i = k \<longrightarrow> IsError (Array m ! i))"
  then have "\<forall>j < length (Array m). 0 + j < length keys \<longrightarrow> keys ! (0 + j) = k \<longrightarrow> IsError (Array m ! j)"
    by simp
  from Set_loop_skips_errors [OF this, of d c]
  have l: "entries (fst (Cache_Set_loop d c keys 0 (Array m))) k = entries c k
     \<and> writes_of k (calls (fst (Cache_Set_loop d c keys 0 (Array m)))) = writes_of k (calls c)" .
  from a have "Cache_Set d c keys m = Cache_Set_loop d c keys 0 (Array m)"
    by (cases m) (simp add: IsArray_def IsError_def)
  with l show "entries (fst (Cache_Set d c keys m)) k = entries c k" 
    and "writes_of k (calls (fst (Cache_Set d c keys m))) = writes_of k (calls c)" by simp_all
qed

theorem C3_no_error_caching_witness:
  "IsError (Message TypeError ''MOVED 1 h:1'' [])
   \<and> Cache_Set sampleDeps sampleCache [''foo''] (Message TypeError ''MOVED 1 h:1'' []) = (sampleCache, None)
   \<and> IsArray (NewArray [Message TypeError ''ERR'' [], bulk ''2''])
   \<and> entries (fst (Cache_Set sampleDeps sampleCache [''foo'', ''b''] (NewArray [Message TypeError ''ERR'' [], bulk ''2''])))
        ''foo'' = Some ''$bar''
   \<and> writes_of ''foo'' (calls (fst (Cache_Set sampleDeps sampleCache [''foo'', ''b'']
        (NewArray [Message TypeError ''ERR'' [], bulk ''2''])))) = []
   \<and> entries (fst (Cache_Set sampleDeps sampleCache [''foo'', ''b''] (NewArray [Message TypeError ''ERR'' [], bulk ''2''])))
        ''b'' = Some ''$2''"
  using C3_no_error_caching [of "Message TypeError ''MOVED 1 h:1'' []" sampleDeps sampleCache "[''foo'']" "''foo''"]
    C3_no_error_caching [of "NewArray [Message TypeError ''ERR'' [], bulk ''2'']" sampleDeps sampleCache "[''foo'', ''b'']" "''foo''"]
  by (simp add: IsError_def IsArray_def NewArray_def bulk_def sampleCache_def sampleDeps_def
      Cache_set_def nth_Cons')

subsection \<open>A message that does not encode\<close>

text \<open>
  C6. The claim says that nothing is stored when the encoding fails. The code
  logs the failure and goes on: \<^verbatim>\<open>set\<close> has no return after the log line, so
  the bytes the failed encoder returned are written under the key. Below, the
  key \<open>foo\<close> held a value that decodes; after \<^verbatim>\<open>Set\<close> of a message that does
  not encode it holds the empty bytes, and \<^verbatim>\<open>Get\<close> of it misses.
\<close>

theorem C6_encode_failure_is_stored:
  "fst (Cache_Get sampleDeps sampleCache ''foo'') = Some (bulk ''bar'')
   \<and> EncodeToBytes sampleDeps (Message TypeUnknown ''x'' []) = ([], Some (Error ''bad type''))
   \<and> Cache_Set sampleDeps sampleCache [''foo''] (Message TypeUnknown ''x'' [])
       = (sampleCache\<lparr>entries := [''foo'' \<mapsto> []], calls := [FcSet ''foo'' []],
            errlog := [(''error encoding redis message'', ''foo'')]\<rparr>, None)
   \<and> fst (Cache_Get sampleDeps
         (fst (Cache_Set sampleDeps sampleCache [''foo''] (Message TypeUnknown ''x'' []))) ''foo'') = None"
  by (simp add: sampleDeps_def sampleCache_def Cache_Get_def Cache_set_def sampleDecode_def bulk_def
      IsError_def IsArray_def)

text \<open>The same for every codec and store: the bytes of a failed encoding are stored when the store takes them.\<close>

lemma Cache_set_after_encode_error:
  "EncodeToBytes d mm = (b, Some err) \<Longrightarrow> \<not> fc_rejects d key b \<Longrightarrow>
     entries (Cache_set d c key mm) key = Some b
     \<and> errlog (Cache_set d c key mm) = errlog c @ [(''error encoding redis message'', key)]"
  by (simp add: Cache_set_def)

section \<open>Cache.Get and Cache.GetAll\<close>

lemma Cache_Get_snd: "snd (Cache_Get d c k) = c\<lparr>calls := calls c @ [FcGet k]\<rparr>"
  by (simp add: Cache_Get_def Let_def split: option.splits)

lemma Cache_Get_reads:
  "entries c' = entries c \<Longrightarrow> fst (Cache_Get d c' k) = fst (Cache_Get d c k)"
  by (simp add: Cache_Get_def Let_def split: option.splits)

lemma GetAll_snd: "\<exists>cs. snd (Cache_GetAll d c ks) = c\<lparr>calls := calls c @ cs\<rparr>"
proof (induction ks arbitrary: c)
  case Nil
  have "c = c\<lparr>calls := calls c @ []\<rparr>" by simp
  then show ?case by (intro exI [of _ "[]"]) simp
next
  case (Cons k ks)
  obtain r c1 where g: "Cache_Get d c k = (r, c1)" by force
  with Cache_Get_snd [of d c k] have c1: "c1 = c\<lparr>calls := calls c @ [FcGet k]\<rparr>" by simp
  show ?case
  proof (cases r)
    case None
    with g c1 show ?thesis by auto
  next
    case (Some m)
    from Cons.IH [of c1] obtain cs where cs: "snd (Cache_GetAll d c1 ks) = c1\<lparr>calls := calls c1 @ cs\<rparr>" ..
    have "snd (Cache_GetAll d c (k # ks)) = snd (Cache_GetAll d c1 ks)"
      using g Some by (simp split: prod.splits option.splits)
    also have "\<dots> = c\<lparr>calls := calls c @ ([FcGet k] @ cs)\<rparr>"
      using cs c1 by simp
    finally show ?thesis by blast
  qed
qed

lemma GetAll_entries: "entries (snd (Cache_GetAll d c ks)) = entries c"
  using GetAll_snd [of d c ks] by auto

lemma GetAll_fst:
  "fst (Cache_GetAll d c keys) =
     (if \<forall>k \<in> set keys. fst (Cache_Get d c k) \<noteq> None
      then Some (map (\<lambda>k. the (fst (Cache_Get d c k))) keys) else None)"
proof (induction keys arbitrary: c)
  case Nil
  then show ?case by simp
next
  case (Cons k ks)
  obtain r c1 where g: "Cache_Get d c k = (r, c1)" by force
  with Cache_Get_snd [of d c k] have "entries c1 = entries c" by simp
  then have same: "\<And>k'. fst (Cache_Get d c1 k') = fst (Cache_Get d c k')"
    by (rule Cache_Get_reads)
  have r: "fst (Cache_Get d c k) = r" using g by simp
  show ?case
  proof (cases r)
    case None
    with g r show ?thesis by auto
  next
    case (Some m)
    obtain rs c2 where ga: "Cache_GetAll d c1 ks = (rs, c2)" by force
    have rs: "rs = (if \<forall>k' \<in> set ks. fst (Cache_Get d c k') \<noteq> None
      then Some (map (\<lambda>k'. the (fst (Cache_Get d c k'))) ks) else None)"
      using Cons.IH [of c1] ga same by simp
    have "fst (Cache_GetAll d c (k # ks)) = (case rs of None \<Rightarrow> None | Some rest \<Rightarrow> Some (m # rest))"
      using g Some ga by (simp split: option.splits)
    with rs r Some show ?thesis by auto
  qed
qed

section \<open>fetchFromCache\<close>

lemma GetAll_result:
  obtains cs where "Cache_GetAll d c keys =
     (if \<forall>k \<in> set keys. fst (Cache_Get d c k) \<noteq> None
      then Some (map (\<lambda>k. the (fst (Cache_Get d c k))) keys) else None,
      c\<lparr>calls := calls c @ cs\<rparr>)"
proof -
  obtain cs where "snd (Cache_GetAll d c keys) = c\<lparr>calls := calls c @ cs\<rparr>"
    using GetAll_snd by blast
  with GetAll_fst [of d c keys] have "Cache_GetAll d c keys =
     (if \<forall>k \<in> set keys. fst (Cache_Get d c k) \<noteq> None
      then Some (map (\<lambda>k. the (fst (Cache_Get d c k))) keys) else None,
      c\<lparr>calls := calls c @ cs\<rparr>)"
    by (simp only: prod_eq_iff fst_conv snd_conv simp_thms)
  then show thesis by (rule that)
qed

lemma cachedResponse_reads:
  "entries c' = entries c \<Longrightarrow> cachedResponse d c' cmd keys = cachedResponse d c cmd keys"
  by (simp add: cachedResponse_def Cache_Get_reads [of c' c])

lemma collectKeys_cacheable:
  "\<forall>j < length mm. i + j < length cmds \<and> CacheableCommands (cmds ! (i + j)) \<Longrightarrow>
     collectKeys d cmds i mm = Return (Some (map (Keys d) mm))"
proof (induction mm arbitrary: i)
  case Nil
  then show ?case by simp
next
  case (Cons m mm)
  from Cons.prems [rule_format, of 0] have h: "i < length cmds" "CacheableCommands (cmds ! i)" by auto
  have "\<forall>j < length mm. (i + 1) + j < length cmds \<and> CacheableCommands (cmds ! ((i + 1) + j))"
    using Cons.prems [rule_format, of "Suc j" for j] by auto
  from Cons.IH [OF this] h show ?case by simp
qed

lemma collectKeys_not_cacheable:
  "i + length mm \<le> length cmds \<Longrightarrow> \<exists>j < length mm. \<not> CacheableCommands (cmds ! (i + j)) \<Longrightarrow>
     collectKeys d cmds i mm = Return None"
proof (induction mm arbitrary: i)
  case Nil
  then show ?case by simp
next
  case (Cons m mm)
  show ?case
  proof (cases "CacheableCommands (cmds ! i)")
    case True
    from Cons.prems(2) obtain j where j: "j < length (m # mm)" "\<not> CacheableCommands (cmds ! (i + j))" by blast
    with True obtain j' where "j = Suc j'" by (cases j) auto
    with j have "\<exists>j' < length mm. \<not> CacheableCommands (cmds ! ((i + 1) + j'))" by auto
    from Cons.IH [OF _ this] Cons.prems(1) True show ?thesis by simp
  next
    case False
    with Cons.prems(1) show ?thesis by simp
  qed
qed

lemma fetchLoop_snd: "\<exists>cs. snd (fetchLoop d c cmds i keys) = c\<lparr>calls := calls c @ cs\<rparr>"
proof (induction keys arbitrary: c i)
  case Nil
  have "c = c\<lparr>calls := calls c @ []\<rparr>" by simp
  then show ?case by (intro exI [of _ "[]"]) simp
next
  case (Cons k keys)
  obtain cs1 where g0: "Cache_GetAll d c k =
     (if \<forall>k' \<in> set k. fst (Cache_Get d c k') \<noteq> None
      then Some (map (\<lambda>k'. the (fst (Cache_Get d c k'))) k) else None,
      c\<lparr>calls := calls c @ cs1\<rparr>)"
    by (rule GetAll_result)
  define c1 where "c1 = c\<lparr>calls := calls c @ cs1\<rparr>"
  obtain r where g: "Cache_GetAll d c k = (r, c1)" using g0 c1_def by simp
  from Cons.IH [of c1 "i + 1"] obtain cs2 where
    cs2: "snd (fetchLoop d c1 cmds (i + 1) keys) = c1\<lparr>calls := calls c1 @ cs2\<rparr>" ..
  have c12: "c1\<lparr>calls := calls c1 @ cs2\<rparr> = c\<lparr>calls := calls c @ (cs1 @ cs2)\<rparr>"
    by (simp add: c1_def)
  have "snd (fetchLoop d c cmds i (k # keys)) = c1 \<or>
        snd (fetchLoop d c cmds i (k # keys)) = snd (fetchLoop d c1 cmds (i + 1) keys)"
    using g by (auto split: option.splits list.splits prod.splits res.splits)
  then show ?case
  proof
    assume "snd (fetchLoop d c cmds i (k # keys)) = c1"
    then show ?thesis unfolding c1_def by (rule exI)
  next
    assume "snd (fetchLoop d c cmds i (k # keys)) = snd (fetchLoop d c1 cmds (i + 1) keys)"
    with cs2 c12 have "snd (fetchLoop d c cmds i (k # keys)) = c\<lparr>calls := calls c @ (cs1 @ cs2)\<rparr>"
      by simp
    then show ?thesis by (rule exI)
  qed
qed

lemma fetchLoop_hit:
  "\<forall>j < length keys. i + j < length cmds
       \<and> (\<forall>k \<in> set (keys ! j). fst (Cache_Get d c k) \<noteq> None)
       \<and> (cmds ! (i + j) = ''GET'' \<longrightarrow> keys ! j \<noteq> []) \<Longrightarrow>
     fst (fetchLoop d c cmds i keys)
       = Return (Some (map (\<lambda>j. cachedResponse d c (cmds ! (i + j)) (keys ! j)) [0..<length keys]))"
proof (induction keys arbitrary: c i)
  case Nil
  then show ?case by simp
next
  case (Cons k keys)
  from Cons.prems [rule_format, of 0]
  have h: "i < length cmds" "\<forall>k' \<in> set k. fst (Cache_Get d c k') \<noteq> None"
    "cmds ! i = ''GET'' \<longrightarrow> k \<noteq> []" by auto
  obtain cs1 where g: "Cache_GetAll d c k =
      (Some (map (\<lambda>k'. the (fst (Cache_Get d c k'))) k), c\<lparr>calls := calls c @ cs1\<rparr>)"
  proof -
    obtain cs1 where "Cache_GetAll d c k =
       (if \<forall>k' \<in> set k. fst (Cache_Get d c k') \<noteq> None
        then Some (map (\<lambda>k'. the (fst (Cache_Get d c k'))) k) else None,
        c\<lparr>calls := calls c @ cs1\<rparr>)"
      by (rule GetAll_result)
    with h(2) have "Cache_GetAll d c k =
      (Some (map (\<lambda>k'. the (fst (Cache_Get d c k'))) k), c\<lparr>calls := calls c @ cs1\<rparr>)"
      by simp
    then show thesis by (rule that)
  qed
  define c1 where "c1 = c\<lparr>calls := calls c @ cs1\<rparr>"
  have e: "entries c1 = entries c" by (simp add: c1_def)
  have "\<forall>j < length keys. (i + 1) + j < length cmds
       \<and> (\<forall>k' \<in> set (keys ! j). fst (Cache_Get d c1 k') \<noteq> None)
       \<and> (cmds ! ((i + 1) + j) = ''GET'' \<longrightarrow> keys ! j \<noteq> [])"
    using Cons.prems [rule_format, of "Suc j" for j] by (auto simp: Cache_Get_reads [OF e])
  from Cons.IH [OF this]
  have rest: "fst (fetchLoop d c1 cmds (i + 1) keys)
       = Return (Some (map (\<lambda>j. cachedResponse d c (cmds ! (i + Suc j)) (keys ! j)) [0..<length keys]))"
    by (simp add: cachedResponse_reads [OF e])
  obtain c2 where l: "fetchLoop d c1 cmds (i + 1) keys
       = (Return (Some (map (\<lambda>j. cachedResponse d c (cmds ! (i + Suc j)) (keys ! j)) [0..<length keys])), c2)"
    using rest by (cases "fetchLoop d c1 cmds (i + 1) keys") auto
  show ?case
  proof (cases "cmds ! i = ''GET''")
    case True
    with h(3) obtain k0 ks where k: "k = k0 # ks" by (cases k) auto
    with g l h(1) True show ?thesis
      by (simp add: c1_def cachedResponse_def map_upt_Suc del: upt_Suc)
  next
    case False
    with g l h(1) show ?thesis
      by (simp add: c1_def cachedResponse_def map_upt_Suc del: upt_Suc)
  qed
qed

lemma fetchLoop_miss:
  "\<forall>j < length keys. i + j < length cmds \<and> (cmds ! (i + j) = ''GET'' \<longrightarrow> keys ! j \<noteq> []) \<Longrightarrow>
   \<exists>j < length keys. \<exists>k \<in> set (keys ! j). fst (Cache_Get d c k) = None \<Longrightarrow>
     fst (fetchLoop d c cmds i keys) = Return None"
proof (induction keys arbitrary: c i)
  case Nil
  then show ?case by simp
next
  case (Cons k keys)
  from Cons.prems(1) [rule_format, of 0]
  have h: "i < length cmds" "cmds ! i = ''GET'' \<longrightarrow> k \<noteq> []" by auto
  show ?case
  proof (cases "\<forall>k' \<in> set k. fst (Cache_Get d c k') \<noteq> None")
    case True
    obtain cs1 where g: "Cache_GetAll d c k =
        (Some (map (\<lambda>k'. the (fst (Cache_Get d c k'))) k), c\<lparr>calls := calls c @ cs1\<rparr>)"
    proof -
      obtain cs1 where "Cache_GetAll d c k =
         (if \<forall>k' \<in> set k. fst (Cache_Get d c k') \<noteq> None
          then Some (map (\<lambda>k'. the (fst (Cache_Get d c k'))) k) else None,
          c\<lparr>calls := calls c @ cs1\<rparr>)"
        by (rule GetAll_result)
      with True have "Cache_GetAll d c k =
        (Some (map (\<lambda>k'. the (fst (Cache_Get d c k'))) k), c\<lparr>calls := calls c @ cs1\<rparr>)"
        by simp
      then show thesis by (rule that)
    qed
    define c1 where "c1 = c\<lparr>calls := calls c @ cs1\<rparr>"
    have e: "entries c1 = entries c" by (simp add: c1_def)
    have p1: "\<forall>j < length keys. (i + 1) + j < length cmds
         \<and> (cmds ! ((i + 1) + j) = ''GET'' \<longrightarrow> keys ! j \<noteq> [])"
      using Cons.prems(1) [rule_format, of "Suc j" for j] by auto
    from Cons.prems(2) obtain j k' where j: "j < length (k # keys)" "k' \<in> set ((k # keys) ! j)"
      "fst (Cache_Get d c k') = None" by blast
    with True obtain j' where "j = Suc j'" by (cases j) auto
    with j have p2: "\<exists>j < length keys. \<exists>k \<in> set (keys ! j). fst (Cache_Get d c1 k) = None"
      by (auto simp: Cache_Get_reads [OF e])
    from Cons.IH [OF p1 p2] obtain c2 where l: "fetchLoop d c1 cmds (i + 1) keys = (Return None, c2)"
      by (cases "fetchLoop d c1 cmds (i + 1) keys") auto
    show ?thesis
    proof (cases "cmds ! i = ''GET''")
      case True
      with h(2) obtain k0 ks where k: "k = k0 # ks" by (cases k) auto
      with g l h(1) True show ?thesis by (simp add: c1_def)
    next
      case False
      with g l h(1) show ?thesis by (simp add: c1_def)
    qed
  next
    case False
    obtain cs1 where g: "Cache_GetAll d c k = (None, c\<lparr>calls := calls c @ cs1\<rparr>)"
    proof -
      obtain cs1 where "Cache_GetAll d c k =
         (if \<forall>k' \<in> set k. fst (Cache_Get d c k') \<noteq> None
          then Some (map (\<lambda>k'. the (fst (Cache_Get d c k'))) k) else None,
          c\<lparr>calls := calls c @ cs1\<rparr>)"
        by (rule GetAll_result)
      with False have "Cache_GetAll d c k = (None, c\<lparr>calls := calls c @ cs1\<rparr>)"
        by simp
      then show thesis by (rule that)
    qed
    then show ?thesis by simp
  qed
qed

lemma fetch_hit:
  assumes "length mm \<le> length cmds"
    and "\<forall>i < length mm. CacheableCommands (cmds ! i)"
    and "\<forall>i < length mm. cmds ! i = ''GET'' \<longrightarrow> Keys d (mm ! i) \<noteq> []"
    and "\<forall>i < length mm. \<forall>k \<in> set (Keys d (mm ! i)). fst (Cache_Get d c k) \<noteq> None"
  shows "\<exists>cs. fetchFromCache d c mm cmds =
     (Return (Some (map (Keys d) mm),
              map (\<lambda>i. cachedResponse d c (cmds ! i) (Keys d (mm ! i))) [0..<length mm],
              None),
      c\<lparr>calls := calls c @ cs\<rparr>)"
proof -
  have ck: "collectKeys d cmds 0 mm = Return (Some (map (Keys d) mm))"
    using assms(1,2) by (intro collectKeys_cacheable) auto
  have "\<forall>j < length (map (Keys d) mm). 0 + j < length cmds
       \<and> (\<forall>k \<in> set (map (Keys d) mm ! j). fst (Cache_Get d c k) \<noteq> None)
       \<and> (cmds ! (0 + j) = ''GET'' \<longrightarrow> map (Keys d) mm ! j \<noteq> [])"
    using assms by auto
  from fetchLoop_hit [OF this]
  have "fst (fetchLoop d c cmds 0 (map (Keys d) mm))
       = Return (Some (map (\<lambda>j. cachedResponse d c (cmds ! (0 + j)) (map (Keys d) mm ! j))
                        [0..<length (map (Keys d) mm)]))" .
  also have "map (\<lambda>j. cachedResponse d c (cmds ! (0 + j)) (map (Keys d) mm ! j))
                        [0..<length (map (Keys d) mm)]
     = map (\<lambda>i. cachedResponse d c (cmds ! i) (Keys d (mm ! i))) [0..<length mm]"
    by simp
  finally have f: "fst (fetchLoop d c cmds 0 (map (Keys d) mm))
       = Return (Some (map (\<lambda>i. cachedResponse d c (cmds ! i) (Keys d (mm ! i))) [0..<length mm]))" .
  obtain cs where s: "snd (fetchLoop d c cmds 0 (map (Keys d) mm)) = c\<lparr>calls := calls c @ cs\<rparr>"
    using fetchLoop_snd by blast
  from f s have "fetchLoop d c cmds 0 (map (Keys d) mm)
       = (Return (Some (map (\<lambda>i. cachedResponse d c (cmds ! i) (Keys d (mm ! i))) [0..<length mm])),
          c\<lparr>calls := calls c @ cs\<rparr>)"
    by (simp only: prod_eq_iff fst_conv snd_conv simp_thms)
  with ck have "fetchFromCache d c mm cmds =
     (Return (Some (map (Keys d) mm),
              map (\<lambda>i. cachedResponse d c (cmds ! i) (Keys d (mm ! i))) [0..<length mm],
              None),
      c\<lparr>calls := calls c @ cs\<rparr>)"
    by (simp add: fetchFromCache_def)
  then show ?thesis by (rule exI)
qed

lemma fetch_miss:
  assumes "length mm \<le> length cmds"
    and "\<forall>i < length mm. CacheableCommands (cmds ! i)"
    and "\<forall>i < length mm. cmds ! i = ''GET'' \<longrightarrow> Keys d (mm ! i) \<noteq> []"
    and "j < length mm" and "k \<in> set (Keys d (mm ! j))" and "fst (Cache_Get d c k) = None"
  shows "\<exists>c'. fetchFromCache d c mm cmds =
     (Return (Some (map (Keys d) mm), [], Some (Error ''not found'')), c')"
proof -
  have ck: "collectKeys d cmds 0 mm = Return (Some (map (Keys d) mm))"
    using assms(1,2) by (intro collectKeys_cacheable) auto
  have p1: "\<forall>j < length (map (Keys d) mm). 0 + j < length cmds
       \<and> (cmds ! (0 + j) = ''GET'' \<longrightarrow> map (Keys d) mm ! j \<noteq> [])"
    using assms(1,3) by auto
  have p2: "\<exists>j < length (map (Keys d) mm). \<exists>k \<in> set (map (Keys d) mm ! j). fst (Cache_Get d c k) = None"
    using assms(4,5,6) by (intro exI [of _ j]) auto
  from fetchLoop_miss [OF p1 p2]
  obtain c' where "fetchLoop d c cmds 0 (map (Keys d) mm) = (Return None, c')"
    by (cases "fetchLoop d c cmds 0 (map (Keys d) mm)") auto
  with ck have "fetchFromCache d c mm cmds =
     (Return (Some (map (Keys d) mm), [], Some (Error ''not found'')), c')"
    by (simp add: fetchFromCache_def)
  then show ?thesis by (rule exI)
qed

section \<open>The effects of the response loop\<close>

lemma ensure_frame:
  "cache (ensureListenerForUpstream d p u cmd) = cache p"
  "sent (ensureListenerForUpstream d p u cmd) = sent p"
  by (simp_all add: ensureListenerForUpstream_def createListener_def runListener_def Let_def
      split: option.splits)

lemma ensure_fold_frame:
  "cache (foldl (\<lambda>q addr. ensureListenerForUpstream d q addr cmd) p addrs) = cache p
   \<and> sent (foldl (\<lambda>q addr. ensureListenerForUpstream d q addr cmd) p addrs) = sent p"
  by (induction addrs arbitrary: p) (simp_all add: ensure_frame)

lemma observeSlots_frame:
  "cache (snd (observeSlots d p cmd mm m)) = cache p"
  "sent (snd (observeSlots d p cmd mm m)) = sent p"
  by (simp_all add: observeSlots_def ensure_fold_frame split: prod.splits option.splits sum.splits)

lemma observeNodes_frame:
  "cache (snd (observeNodes d p cmd lines)) = cache p \<and> sent (snd (observeNodes d p cmd lines)) = sent p"
  by (induction d p cmd lines rule: observeNodes.induct) (simp_all add: Let_def ensure_frame)

lemma observeRedirect_frame:
  "cache (snd (observeRedirect d p cmd mm m)) = cache p"
  "sent (snd (observeRedirect d p cmd mm m)) = sent p"
  by (simp_all add: observeRedirect_def Let_def ensure_frame)

lemma fillCache_frame:
  "sent (snd (fillCache d p cacheKeys i m)) = sent p"
  "fillCache d p None i m = (None, p)"
  by (simp_all add: fillCache_def split: option.splits prod.splits)

lemma respStep_sent: "sent (snd (respStep d p cacheKeys cmds mm i m)) = sent p"
proof -
  obtain e p1 where f: "fillCache d p cacheKeys i m = (e, p1)" by force
  with fillCache_frame(1) [of d p cacheKeys i m] have s1: "sent p1 = sent p" by simp
  show ?thesis
  proof (cases e)
    case (Some a)
    with f s1 show ?thesis by (simp add: respStep_def)
  next
    case None
    obtain e2 p2 where n: "(if cmds ! i = ''CLUSTER NODES'' \<and> IsBulkBytes m
        then observeNodes d p1 (cmds ! i) (Split (Value m) (CHR 0x0A)) else (None, p1)) = (e2, p2)"
      by force
    have s2: "sent p2 = sent p1"
      using n observeNodes_frame [of d p1 "cmds ! i" "Split (Value m) (CHR 0x0A)"]
      by (auto split: if_splits)
    from f None n s1 s2 show ?thesis
      by (cases e2) (simp_all add: respStep_def observeSlots_frame observeRedirect_frame)
  qed
qed

lemma respStep_cache: "cache (snd (respStep d p None cmds mm i m)) = cache p"
proof -
  obtain e2 p2 where n: "(if cmds ! i = ''CLUSTER NODES'' \<and> IsBulkBytes m
      then observeNodes d p (cmds ! i) (Split (Value m) (CHR 0x0A)) else (None, p)) = (e2, p2)"
    by force
  have s2: "cache p2 = cache p"
    using n observeNodes_frame [of d p "cmds ! i" "Split (Value m) (CHR 0x0A)"]
    by (auto split: if_splits)
  from n s2 show ?thesis
    by (cases e2) (simp_all add: respStep_def fillCache_frame observeSlots_frame observeRedirect_frame)
qed

lemma respLoop_sent: "sent (snd (respLoop d p cacheKeys cmds mm i rest)) = sent p"
proof (induction rest arbitrary: p i)
  case Nil
  then show ?case by simp
next
  case (Cons m rest)
  obtain s p' where st: "respStep d p cacheKeys cmds mm i m = (s, p')" by force
  with respStep_sent [of d p cacheKeys cmds mm i m] have "sent p' = sent p" by simp
  with st Cons.IH [of p' "i + 1"] show ?case by (cases s) simp_all
qed

lemma respLoop_cache: "cache (snd (respLoop d p None cmds mm i rest)) = cache p"
proof (induction rest arbitrary: p i)
  case Nil
  then show ?case by simp
next
  case (Cons m rest)
  obtain s p' where st: "respStep d p None cmds mm i m = (s, p')" by force
  with respStep_cache [of d p cmds mm i m] have "cache p' = cache p" by simp
  with st Cons.IH [of p' "i + 1"] show ?case by (cases s) simp_all
qed

lemma roundTrip_sent: "sent (snd (roundTrip d p cacheKeys cmds mm rt)) = sent p @ [mm]"
  by (simp add: roundTrip_def Let_def respLoop_sent split: prod.splits option.splits)

lemma roundTrip_cache: "cache (snd (roundTrip d p None cmds mm rt)) = cache p"
  by (simp add: roundTrip_def Let_def respLoop_cache split: prod.splits option.splits)

lemma fillCache_ok_iff:
  "fst (fillCache d p cacheKeys i m) = None \<longleftrightarrow>
     (case cacheKeys of None \<Rightarrow> True
      | Some keys \<Rightarrow> i < length keys \<and> inRange (length (keys ! i)) m)"
proof (cases cacheKeys)
  case None
  then show ?thesis by (simp add: fillCache_def)
next
  case (Some keys)
  show ?thesis
  proof (cases "i < length keys")
    case True
    obtain c' e where s: "Cache_Set d (cache p) (keys ! i) m = (c', e)" by force
    with Set_panic_iff(1) [of d "cache p" "keys ! i" m] Some True show ?thesis
      by (simp add: fillCache_def)
  next
    case False
    with Some show ?thesis by (simp add: fillCache_def)
  qed
qed

lemma Cacheable_not_cluster:
  "CacheableCommands cmd \<Longrightarrow> cmd \<noteq> ''CLUSTER SLOTS'' \<and> cmd \<noteq> ''CLUSTER NODES''"
  by (auto simp: CacheableCommands_def)

lemma observeRedirect_fst:
  "fst (observeRedirect d p cmd mm m) = Continue \<or> fst (observeRedirect d p cmd mm m) = Stop (mm, None)"
  by (simp add: observeRedirect_def Let_def)

lemma respStep_cacheable:
  assumes "i < length cmds" and "CacheableCommands (cmds ! i)"
  shows "fst (respStep d p cacheKeys cmds mm i m) =
     (case fst (fillCache d p cacheKeys i m) of
        Some e \<Rightarrow> Crash e
      | None \<Rightarrow> fst (observeRedirect d (snd (fillCache d p cacheKeys i m)) (cmds ! i) mm m))"
  using assms Cacheable_not_cluster [OF assms(2)]
  by (cases "fillCache d p cacheKeys i m") (simp add: respStep_def split: option.splits)

lemma respLoop_returns:
  "\<forall>j. i \<le> j \<and> j < length cmds \<longrightarrow> CacheableCommands (cmds ! j) \<Longrightarrow>
   fst (respLoop d p cacheKeys cmds mm i rest) = Return r \<Longrightarrow> r = (mm, None)"
proof (induction rest arbitrary: p i)
  case Nil
  then show ?case by simp
next
  case (Cons m rest)
  obtain s p' where st: "respStep d p cacheKeys cmds mm i m = (s, p')" by force
  show ?case
  proof (cases "i < length cmds")
    case True
    with Cons.prems(1) have c: "CacheableCommands (cmds ! i)" by simp
    have s: "s = (case fst (fillCache d p cacheKeys i m) of
        Some e \<Rightarrow> Crash e
      | None \<Rightarrow> fst (observeRedirect d (snd (fillCache d p cacheKeys i m)) (cmds ! i) mm m))"
      using respStep_cacheable [OF True c, of d p cacheKeys mm m] st by simp
    show ?thesis
    proof (cases s)
      case Continue
      have "\<forall>j. i + 1 \<le> j \<and> j < length cmds \<longrightarrow> CacheableCommands (cmds ! j)"
        using Cons.prems(1) by simp
      from Cons.IH [OF this, of p'] Cons.prems(2) st Continue show ?thesis by simp
    next
      case (Stop r')
      with s have "r' = (mm, None)"
        using observeRedirect_fst [of d "snd (fillCache d p cacheKeys i m)" "cmds ! i" mm m]
        by (auto split: option.splits)
      with Cons.prems(2) st Stop show ?thesis by simp
    next
      case (Crash e)
      with Cons.prems(2) st show ?thesis by simp
    qed
  next
    case False
    have "s = Crash IndexOutOfRange \<or> (\<exists>e. s = Crash e)"
      using st False by (auto simp: respStep_def split: prod.splits option.splits)
    with Cons.prems(2) st show ?thesis by auto
  qed
qed

lemma respLoop_no_panic:
  "\<forall>j < length rest. i + j < length cmds \<and> CacheableCommands (cmds ! (i + j))
       \<and> (case cacheKeys of None \<Rightarrow> True
           | Some keys \<Rightarrow> i + j < length keys \<and> inRange (length (keys ! (i + j))) (rest ! j)) \<Longrightarrow>
   fst (respLoop d p cacheKeys cmds mm i rest) = Return (mm, None)"
proof (induction rest arbitrary: p i)
  case Nil
  then show ?case by simp
next
  case (Cons m rest)
  obtain s p' where st: "respStep d p cacheKeys cmds mm i m = (s, p')" by force
  from Cons.prems [rule_format, of 0]
  have h: "i < length cmds" "CacheableCommands (cmds ! i)"
    "fst (fillCache d p cacheKeys i m) = None"
    by (simp_all add: fillCache_ok_iff split: option.splits)
  have s: "s = fst (observeRedirect d (snd (fillCache d p cacheKeys i m)) (cmds ! i) mm m)"
    using respStep_cacheable [OF h(1,2), of d p cacheKeys mm m] st h(3) by simp
  have rest: "\<forall>j < length rest. (i + 1) + j < length cmds \<and> CacheableCommands (cmds ! ((i + 1) + j))
       \<and> (case cacheKeys of None \<Rightarrow> True
           | Some keys \<Rightarrow> (i + 1) + j < length keys \<and> inRange (length (keys ! ((i + 1) + j))) (rest ! j))"
    using Cons.prems [rule_format, of "Suc j" for j] by (cases cacheKeys) auto
  from observeRedirect_fst [of d "snd (fillCache d p cacheKeys i m)" "cmds ! i" mm m]
  show ?case
  proof
    assume "fst (observeRedirect d (snd (fillCache d p cacheKeys i m)) (cmds ! i) mm m) = Continue"
    with s st Cons.IH [OF rest, of p'] show ?thesis by simp
  next
    assume "fst (observeRedirect d (snd (fillCache d p cacheKeys i m)) (cmds ! i) mm m) = Stop (mm, None)"
    with s st show ?thesis by simp
  qed
qed

lemma roundTrip_returns:
  "\<forall>j < length cmds. CacheableCommands (cmds ! j) \<Longrightarrow>
   fst (roundTrip d p cacheKeys cmds mm rt) = Return r \<Longrightarrow> r = rt mm"
proof -
  assume c: "\<forall>j < length cmds. CacheableCommands (cmds ! j)"
    and r: "fst (roundTrip d p cacheKeys cmds mm rt) = Return r"
  obtain mm' err where rt: "rt mm = (mm', err)" by force
  show "r = rt mm"
  proof (cases err)
    case None
    from c have "\<forall>j. 0 \<le> j \<and> j < length cmds \<longrightarrow> CacheableCommands (cmds ! j)" by simp
    from respLoop_returns [OF this, of d "p\<lparr>sent := sent p @ [mm]\<rparr>" cacheKeys mm' mm' r] r rt None
    show ?thesis by (simp add: roundTrip_def Let_def)
  next
    case (Some e)
    with r rt show ?thesis by (simp add: roundTrip_def Let_def)
  qed
qed

lemma roundTrip_no_panic:
  assumes "\<forall>j < length cmds. CacheableCommands (cmds ! j)"
    and "snd (rt mm) \<noteq> None \<or>
         (length (fst (rt mm)) \<le> length cmds
          \<and> (\<forall>j < length (fst (rt mm)).
                case cacheKeys of None \<Rightarrow> True
                | Some keys \<Rightarrow> j < length keys \<and> inRange (length (keys ! j)) (fst (rt mm) ! j)))"
  shows "fst (roundTrip d p cacheKeys cmds mm rt) = Return (rt mm)"
proof -
  obtain mm' err where rt: "rt mm = (mm', err)" by force
  show ?thesis
  proof (cases err)
    case None
    with assms(2) rt have wf: "length mm' \<le> length cmds"
      "\<forall>j < length mm'. case cacheKeys of None \<Rightarrow> True
                | Some keys \<Rightarrow> j < length keys \<and> inRange (length (keys ! j)) (mm' ! j)"
      by (auto split: option.splits)
    have "\<forall>j < length mm'. 0 + j < length cmds \<and> CacheableCommands (cmds ! (0 + j))
       \<and> (case cacheKeys of None \<Rightarrow> True
           | Some keys \<Rightarrow> 0 + j < length keys \<and> inRange (length (keys ! (0 + j))) (mm' ! j))"
      using wf assms(1) by (auto split: option.splits)
    from respLoop_no_panic [OF this, of d "p\<lparr>sent := sent p @ [mm]\<rparr>" mm'] rt None
    show ?thesis by (simp add: roundTrip_def Let_def)
  next
    case (Some e)
    with rt show ?thesis by (simp add: roundTrip_def Let_def)
  qed
qed

section \<open>interceptMessages\<close>

subsection \<open>A batch served from the cache\<close>

text \<open>
  C1. With cache prefixes configured, for a batch whose commands are all GET
  or MGET (each GET with a key) and whose keys are all present in the cache,
  \<^verbatim>\<open>interceptMessages\<close> returns, for each command in order, the cached element
  of its key for GET and the array of the cached elements of its keys for MGET;
  nothing is sent upstream, and nothing of the proxy changes but the record of
  the reads of the store.
\<close>

theorem C1_full_hit_served_from_cache:
  assumes "cachePrefixes p \<noteq> None"
    and "length mm \<le> length originalCmds"
    and "\<forall>i < length mm. CacheableCommands (originalCmds ! i)"
    and "\<forall>i < length mm. originalCmds ! i = ''GET'' \<longrightarrow> Keys d (mm ! i) \<noteq> []"
    and "\<forall>i < length mm. \<forall>k \<in> set (Keys d (mm ! i)). fst (Cache_Get d (cache p) k) \<noteq> None"
  shows "fst (interceptMessages d p originalCmds mm rt)
           = Return (map (\<lambda>i. cachedResponse d (cache p) (originalCmds ! i) (Keys d (mm ! i)))
                       [0..<length mm], None)
       \<and> (\<exists>cs. snd (interceptMessages d p originalCmds mm rt)
                  = p\<lparr>cache := (cache p)\<lparr>calls := calls (cache p) @ cs\<rparr>\<rparr>)"
proof -
  from assms(1) obtain prefixes where pre: "cachePrefixes p = Some prefixes" by auto
  from fetch_hit [OF assms(2-5)] obtain cs where
    f: "fetchFromCache d (cache p) mm originalCmds =
     (Return (Some (map (Keys d) mm),
              map (\<lambda>i. cachedResponse d (cache p) (originalCmds ! i) (Keys d (mm ! i))) [0..<length mm],
              None),
      (cache p)\<lparr>calls := calls (cache p) @ cs\<rparr>)" ..
  from pre f have r: "interceptMessages d p originalCmds mm rt =
      (Return (map (\<lambda>i. cachedResponse d (cache p) (originalCmds ! i) (Keys d (mm ! i))) [0..<length mm],
               None),
       p\<lparr>cache := (cache p)\<lparr>calls := calls (cache p) @ cs\<rparr>\<rparr>)"
    by (simp add: interceptMessages_def)
  then have "snd (interceptMessages d p originalCmds mm rt)
                  = p\<lparr>cache := (cache p)\<lparr>calls := calls (cache p) @ cs\<rparr>\<rparr>" by simp
  then have "\<exists>cs. snd (interceptMessages d p originalCmds mm rt)
                  = p\<lparr>cache := (cache p)\<lparr>calls := calls (cache p) @ cs\<rparr>\<rparr>" by (rule exI)
  with r show ?thesis by simp
qed

theorem C1_full_hit_served_from_cache_witness:
  "fst (interceptMessages sampleDeps sampleProxy [''GET'', ''MGET'']
          [command [''GET'', ''foo''], command [''MGET'', ''foo'', ''foo'']] (\<lambda>mm. ([], None)))
     = Return ([bulk ''bar'', NewArray [bulk ''bar'', bulk ''bar'']], None)
   \<and> sent (snd (interceptMessages sampleDeps sampleProxy [''GET'', ''MGET'']
          [command [''GET'', ''foo''], command [''MGET'', ''foo'', ''foo'']] (\<lambda>mm. ([], None)))) = []"
proof -
  let ?mm = "[command [''GET'', ''foo''], command [''MGET'', ''foo'', ''foo'']]"
  let ?cmds = "[''GET'', ''MGET'']"
  have h1: "cachePrefixes sampleProxy \<noteq> None" by (simp add: sampleProxy_def)
  have h2: "length ?mm \<le> length ?cmds" by simp
  have h3: "\<forall>i < length ?mm. CacheableCommands (?cmds ! i)"
    by (auto simp: less_Suc_eq CacheableCommands_def)
  have h4: "\<forall>i < length ?mm. ?cmds ! i = ''GET'' \<longrightarrow> Keys sampleDeps (?mm ! i) \<noteq> []"
    by (auto simp: less_Suc_eq sampleDeps_def command_def NewArray_def)
  have h5: "\<forall>i < length ?mm. \<forall>k \<in> set (Keys sampleDeps (?mm ! i)).
      fst (Cache_Get sampleDeps (cache sampleProxy) k) \<noteq> None"
    by (auto simp: less_Suc_eq sampleDeps_def command_def NewArray_def bulk_def sampleProxy_def
        sampleCache_def Cache_Get_def sampleDecode_def)
  from C1_full_hit_served_from_cache [OF h1 h2 h3 h4 h5, of "\<lambda>mm. ([], None)"]
  obtain cs where r: "fst (interceptMessages sampleDeps sampleProxy ?cmds ?mm (\<lambda>mm. ([], None)))
           = Return (map (\<lambda>i. cachedResponse sampleDeps (cache sampleProxy) (?cmds ! i)
                        (Keys sampleDeps (?mm ! i))) [0..<length ?mm], None)"
    and s: "snd (interceptMessages sampleDeps sampleProxy ?cmds ?mm (\<lambda>mm. ([], None)))
                  = sampleProxy\<lparr>cache := (cache sampleProxy)\<lparr>calls := calls (cache sampleProxy) @ cs\<rparr>\<rparr>"
    by blast
  have "map (\<lambda>i. cachedResponse sampleDeps (cache sampleProxy) (?cmds ! i)
                        (Keys sampleDeps (?mm ! i))) [0..<length ?mm]
        = [bulk ''bar'', NewArray [bulk ''bar'', bulk ''bar'']]"
    by (simp add: upt_rec cachedResponse_def sampleDeps_def command_def NewArray_def bulk_def
        sampleProxy_def sampleCache_def Cache_Get_def sampleDecode_def)
  with r s show ?thesis by (simp add: sampleProxy_def)
qed

text \<open>
  A GET command with no key at all is outside C1: all of its keys are present,
  and \<^verbatim>\<open>cached[0]\<close> panics.
\<close>

lemma GET_without_key_panics:
  "fst (interceptMessages sampleDeps sampleProxy [''GET''] [command [''GET'']] rt)
     = Panic IndexOutOfRange"
  by (simp add: interceptMessages_def fetchFromCache_def CacheableCommands_def
      sampleProxy_def sampleDeps_def command_def NewArray_def bulk_def)

subsection \<open>A batch with a key that misses\<close>

text \<open>
  C2. \<^verbatim>\<open>Cache.GetAll\<close> returns the messages of all its keys when every key is
  present, and a miss when any key is absent. When a key of a batch of GET and
  MGET commands is absent, the batch as the client sent it goes to the
  upstream, every response \<^verbatim>\<open>interceptMessages\<close> returns is the reply of the
  upstream itself, and it does return it when the upstream failed or when its
  reply holds no more messages than the batch, each within the range of the
  keys of its command.
\<close>

theorem C2_all_or_nothing_read:
  assumes "length originalCmds = length mm"
    and "\<forall>i < length mm. CacheableCommands (originalCmds ! i)"
    and "\<forall>i < length mm. originalCmds ! i = ''GET'' \<longrightarrow> Keys d (mm ! i) \<noteq> []"
    and "j < length mm" and "k \<in> set (Keys d (mm ! j))" and "fst (Cache_Get d (cache p) k) = None"
  shows "fst (Cache_GetAll d c keys) =
           (if \<forall>k \<in> set keys. fst (Cache_Get d c k) \<noteq> None
            then Some (map (\<lambda>k. the (fst (Cache_Get d c k))) keys) else None)
       \<and> fst (Cache_GetAll d (cache p) (Keys d (mm ! j))) = None
       \<and> sent (snd (interceptMessages d p originalCmds mm rt)) = sent p @ [mm]
       \<and> (\<forall>r. fst (interceptMessages d p originalCmds mm rt) = Return r \<longrightarrow> r = rt mm)
       \<and> (snd (rt mm) \<noteq> None \<or>
            (length (fst (rt mm)) \<le> length mm
             \<and> (\<forall>i < length (fst (rt mm)). inRange (length (Keys d (mm ! i))) (fst (rt mm) ! i)))
          \<longrightarrow> fst (interceptMessages d p originalCmds mm rt) = Return (rt mm))"
proof -
  have len: "length mm \<le> length originalCmds" using assms(1) by simp
  have cacheable: "\<forall>i < length originalCmds. CacheableCommands (originalCmds ! i)"
    using assms(1,2) by simp
  have "\<exists>p' ck. interceptMessages d p originalCmds mm rt = roundTrip d p' ck originalCmds mm rt
          \<and> sent p' = sent p \<and> (ck = None \<or> ck = Some (map (Keys d) mm))"
  proof (cases "cachePrefixes p")
    case None
    then have "interceptMessages d p originalCmds mm rt = roundTrip d p None originalCmds mm rt"
      by (simp add: interceptMessages_def)
    then show ?thesis by blast
  next
    case (Some prefixes)
    from fetch_miss [OF len assms(2-6)] obtain c' where
      "fetchFromCache d (cache p) mm originalCmds =
        (Return (Some (map (Keys d) mm), [], Some (Error ''not found'')), c')" ..
    with Some have "interceptMessages d p originalCmds mm rt
        = roundTrip d (p\<lparr>cache := c'\<rparr>) (Some (map (Keys d) mm)) originalCmds mm rt"
      by (simp add: interceptMessages_def)
    moreover have "sent (p\<lparr>cache := c'\<rparr>) = sent p" by simp
    ultimately show ?thesis by blast
  qed
  then obtain p' ck where i: "interceptMessages d p originalCmds mm rt = roundTrip d p' ck originalCmds mm rt"
    and s: "sent p' = sent p" and ck: "ck = None \<or> ck = Some (map (Keys d) mm)" by blast
  have g1: "fst (Cache_GetAll d c keys) =
           (if \<forall>k \<in> set keys. fst (Cache_Get d c k) \<noteq> None
            then Some (map (\<lambda>k. the (fst (Cache_Get d c k))) keys) else None)"
    by (rule GetAll_fst)
  have g2: "fst (Cache_GetAll d (cache p) (Keys d (mm ! j))) = None"
    using assms(5,6) by (auto simp: GetAll_fst)
  have t1: "sent (snd (interceptMessages d p originalCmds mm rt)) = sent p @ [mm]"
    using i s by (simp add: roundTrip_sent)
  have t2: "\<forall>r. fst (interceptMessages d p originalCmds mm rt) = Return r \<longrightarrow> r = rt mm"
    using i roundTrip_returns [OF cacheable] by auto
  have t3: "fst (interceptMessages d p originalCmds mm rt) = Return (rt mm)"
    if wf: "snd (rt mm) \<noteq> None \<or>
            (length (fst (rt mm)) \<le> length mm
             \<and> (\<forall>i < length (fst (rt mm)). inRange (length (Keys d (mm ! i))) (fst (rt mm) ! i)))"
  proof -
    have "snd (rt mm) \<noteq> None \<or>
         (length (fst (rt mm)) \<le> length originalCmds
          \<and> (\<forall>j < length (fst (rt mm)).
                case ck of None \<Rightarrow> True
                | Some keys \<Rightarrow> j < length keys \<and> inRange (length (keys ! j)) (fst (rt mm) ! j)))"
      using wf ck assms(1) by auto
    from roundTrip_no_panic [of originalCmds rt mm ck d p', OF cacheable this] i show ?thesis by simp
  qed
  from g1 g2 t1 t2 t3 show ?thesis by blast
qed

theorem C2_all_or_nothing_read_witness:
  "fst (Cache_GetAll sampleDeps sampleCache [''foo'', ''b'']) = None
   \<and> fst (Cache_GetAll sampleDeps sampleCache [''foo'', ''foo'']) = Some [bulk ''bar'', bulk ''bar'']
   \<and> interceptMessages sampleDeps sampleProxy [''MGET''] [command [''MGET'', ''foo'', ''b'']]
          (\<lambda>mm. ([NewArray [bulk ''bar'', bulk ''2'']], None))
      = (Return ([NewArray [bulk ''bar'', bulk ''2'']], None),
         sampleProxy\<lparr>sent := [[command [''MGET'', ''foo'', ''b'']]],
           cache := \<lparr>entries = [''foo'' \<mapsto> ''$bar'', ''b'' \<mapsto> ''$2''],
                     calls = [FcGet ''foo'', FcGet ''b'', FcSet ''foo'' ''$bar'', FcSet ''b'' ''$2''],
                     errlog = []\<rparr>\<rparr>)"
proof -
  let ?mm = "[command [''MGET'', ''foo'', ''b'']]"
  let ?cmds = "[''MGET'']"
  let ?rt = "\<lambda>mm :: message list. ([NewArray [bulk ''bar'', bulk ''2'']], None :: go_error option)"
  have h1: "length ?cmds = length ?mm" by simp
  have h2: "\<forall>i < length ?mm. CacheableCommands (?cmds ! i)"
    by (auto simp: CacheableCommands_def)
  have h3: "\<forall>i < length ?mm. ?cmds ! i = ''GET'' \<longrightarrow> Keys sampleDeps (?mm ! i) \<noteq> []"
    by auto
  have h4: "0 < length ?mm" by simp
  have h5: "''b'' \<in> set (Keys sampleDeps (?mm ! 0))"
    by (simp add: sampleDeps_def command_def NewArray_def bulk_def)
  have h6: "fst (Cache_Get sampleDeps (cache sampleProxy) ''b'') = None"
    by (simp add: sampleProxy_def sampleCache_def Cache_Get_def)
  note t = C2_all_or_nothing_read [OF h1 h2 h3 h4 h5 h6, of sampleCache "[''foo'', ''b'']" ?rt]
  have wf: "snd (?rt ?mm) \<noteq> None \<or>
            (length (fst (?rt ?mm)) \<le> length ?mm
             \<and> (\<forall>i < length (fst (?rt ?mm)).
                   inRange (length (Keys sampleDeps (?mm ! i))) (fst (?rt ?mm) ! i)))"
    by (simp add: sampleDeps_def command_def NewArray_def bulk_def IsError_def IsArray_def)
  from t wf have r: "fst (interceptMessages sampleDeps sampleProxy ?cmds ?mm ?rt) = Return (?rt ?mm)"
    by blast
  from t have g: "fst (Cache_GetAll sampleDeps sampleCache [''foo'', ''b'']) =
           (if \<forall>k \<in> set [''foo'', ''b'']. fst (Cache_Get sampleDeps sampleCache k) \<noteq> None
            then Some (map (\<lambda>k. the (fst (Cache_Get sampleDeps sampleCache k))) [''foo'', ''b'']) else None)"
    by blast
  have g1: "fst (Cache_GetAll sampleDeps sampleCache [''foo'', ''b'']) = None"
    using g by (simp add: sampleCache_def Cache_Get_def)
  have g2: "fst (Cache_GetAll sampleDeps sampleCache [''foo'', ''foo'']) = Some [bulk ''bar'', bulk ''bar'']"
    by (simp add: sampleCache_def sampleDeps_def Cache_Get_def sampleDecode_def bulk_def)
  have s: "snd (interceptMessages sampleDeps sampleProxy ?cmds ?mm ?rt)
      = sampleProxy\<lparr>sent := [?mm],
           cache := \<lparr>entries = [''foo'' \<mapsto> ''$bar'', ''b'' \<mapsto> ''$2''],
                     calls = [FcGet ''foo'', FcGet ''b'', FcSet ''foo'' ''$bar'', FcSet ''b'' ''$2''],
                     errlog = []\<rparr>\<rparr>"
    by (simp add: interceptMessages_def fetchFromCache_def roundTrip_def respStep_def fillCache_def
        observeRedirect_def Cache_Get_def Cache_set_def CacheableCommands_def
        sampleProxy_def sampleCache_def sampleDeps_def sampleDecode_def
        command_def NewArray_def bulk_def IsError_def IsArray_def IsBulkBytes_def fun_upd_twist)
  from r s g1 g2 show ?thesis by (simp add: prod_eq_iff)
qed

subsection \<open>A batch with a command that is not cacheable\<close>

text \<open>
  C10. When a command of the batch is neither GET nor MGET, the cache is left
  as it was (no read of the store, no write to it, for any command of the
  batch), and the whole batch is sent upstream.
\<close>

theorem C10_uncacheable_batch_bypasses_cache:
  assumes "length mm \<le> length originalCmds"
    and "j < length mm" and "\<not> CacheableCommands (originalCmds ! j)"
  shows "cache (snd (interceptMessages d p originalCmds mm rt)) = cache p
       \<and> sent (snd (interceptMessages d p originalCmds mm rt)) = sent p @ [mm]"
proof (cases "cachePrefixes p")
  case None
  then show ?thesis by (simp add: interceptMessages_def roundTrip_sent roundTrip_cache)
next
  case (Some prefixes)
  from assms have "collectKeys d originalCmds 0 mm = Return None"
    by (intro collectKeys_not_cacheable) auto
  then have "fetchFromCache d (cache p) mm originalCmds
      = (Return (None, [], Some (Error ''not cacheable'')), cache p)"
    by (simp add: fetchFromCache_def)
  with Some show ?thesis by (simp add: interceptMessages_def roundTrip_sent roundTrip_cache)
qed

theorem C10_uncacheable_batch_bypasses_cache_witness:
  "cache (snd (interceptMessages sampleDeps sampleProxy [''GET'', ''SET'']
          [command [''GET'', ''foo''], command [''SET'', ''foo'', ''x'']]
          (\<lambda>mm. ([bulk ''bar'', Message TypeString ''OK'' []], None)))) = sampleCache
   \<and> sent (snd (interceptMessages sampleDeps sampleProxy [''GET'', ''SET'']
          [command [''GET'', ''foo''], command [''SET'', ''foo'', ''x'']]
          (\<lambda>mm. ([bulk ''bar'', Message TypeString ''OK'' []], None))))
       = [[command [''GET'', ''foo''], command [''SET'', ''foo'', ''x'']]]"
proof -
  let ?mm = "[command [''GET'', ''foo''], command [''SET'', ''foo'', ''x'']]"
  let ?cmds = "[''GET'', ''SET'']"
  have h1: "length ?mm \<le> length ?cmds" by simp
  have h2: "1 < length ?mm" by simp
  have h3: "\<not> CacheableCommands (?cmds ! 1)" by (simp add: CacheableCommands_def)
  from C10_uncacheable_batch_bypasses_cache [OF h1 h2 h3, of sampleDeps sampleProxy]
  show ?thesis by (simp add: sampleProxy_def)
qed

section \<open>Registration of an upstream\<close>

lemma ensure_registers: "listeners (ensureListenerForUpstream d p u cmd) u \<noteq> None"
  by (simp add: ensureListenerForUpstream_def createListener_def runListener_def Let_def
      split: option.splits)

lemma ensure_known: "listeners p u \<noteq> None \<Longrightarrow> ensureListenerForUpstream d p u cmd = p"
  by (auto simp: ensureListenerForUpstream_def)

lemma ensure_new:
  "listeners p u = None \<Longrightarrow>
     ensureListenerForUpstream d p u cmd =
       p\<lparr>created := created p @
            [(localSocketPathFromUpstream u (database p) (LocalSocketPrefix p) (LocalSocketSuffix p), u)],
         listeners := (listeners p)(u \<mapsto>
            (if createFails d
                  (localSocketPathFromUpstream u (database p) (LocalSocketPrefix p) (LocalSocketSuffix p)) u
             then None
             else Some (Listener
                  (localSocketPathFromUpstream u (database p) (LocalSocketPrefix p) (LocalSocketSuffix p)) u))),
         running := running p @
            [if createFails d
                  (localSocketPathFromUpstream u (database p) (LocalSocketPrefix p) (LocalSocketSuffix p)) u
             then None
             else Some (Listener
                  (localSocketPathFromUpstream u (database p) (LocalSocketPrefix p) (LocalSocketSuffix p)) u)]\<rparr>"
  by (simp add: ensureListenerForUpstream_def createListener_def runListener_def Let_def)

lemma ensure_repeat:
  "listeners p u \<noteq> None \<Longrightarrow> foldl (\<lambda>q cmd. ensureListenerForUpstream d q u cmd) p cmds = p"
  by (induction cmds) (simp_all add: ensure_known)

text \<open>
  C7. After a first call of \<^verbatim>\<open>ensureListenerForUpstream\<close> for an address, any
  further calls for it leave the proxy as it is, the listener map included.
  The address is registered then; if it was registered before, the first call
  changed nothing either; if it was not, the first call made one construction
  of a listener with its pool for that address, started what it got, and
  changed no other entry of the map; the entry is that listener when the
  construction did not fail.
\<close>

theorem C7_idempotent_registration:
  "foldl (\<lambda>q cmd. ensureListenerForUpstream d q upstream cmd)
       (ensureListenerForUpstream d p upstream cmd0) cmds
     = ensureListenerForUpstream d p upstream cmd0
   \<and> listeners (ensureListenerForUpstream d p upstream cmd0) upstream \<noteq> None
   \<and> (listeners p upstream \<noteq> None \<longrightarrow> ensureListenerForUpstream d p upstream cmd0 = p)
   \<and> (listeners p upstream = None \<longrightarrow>
        created (ensureListenerForUpstream d p upstream cmd0)
          = created p @ [(localSocketPathFromUpstream upstream (database p)
                            (LocalSocketPrefix p) (LocalSocketSuffix p), upstream)]
        \<and> running (ensureListenerForUpstream d p upstream cmd0)
          = running p @ [the (listeners (ensureListenerForUpstream d p upstream cmd0) upstream)]
        \<and> (\<forall>u. u \<noteq> upstream \<longrightarrow>
              listeners (ensureListenerForUpstream d p upstream cmd0) u = listeners p u)
        \<and> (\<not> createFails d (localSocketPathFromUpstream upstream (database p)
                                (LocalSocketPrefix p) (LocalSocketSuffix p)) upstream \<longrightarrow>
              listeners (ensureListenerForUpstream d p upstream cmd0) upstream
                = Some (Some (Listener (localSocketPathFromUpstream upstream (database p)
                                (LocalSocketPrefix p) (LocalSocketSuffix p)) upstream))))"
proof (intro conjI impI)
  show "foldl (\<lambda>q cmd. ensureListenerForUpstream d q upstream cmd)
       (ensureListenerForUpstream d p upstream cmd0) cmds
     = ensureListenerForUpstream d p upstream cmd0"
    by (rule ensure_repeat) (rule ensure_registers)
  show "listeners (ensureListenerForUpstream d p upstream cmd0) upstream \<noteq> None"
    by (rule ensure_registers)
next
  assume "listeners p upstream \<noteq> None"
  then show "ensureListenerForUpstream d p upstream cmd0 = p" by (rule ensure_known)
next
  assume n: "listeners p upstream = None"
  show "created (ensureListenerForUpstream d p upstream cmd0)
          = created p @ [(localSocketPathFromUpstream upstream (database p)
                            (LocalSocketPrefix p) (LocalSocketSuffix p), upstream)]"
    by (simp add: ensure_new [OF n])
  show "running (ensureListenerForUpstream d p upstream cmd0)
          = running p @ [the (listeners (ensureListenerForUpstream d p upstream cmd0) upstream)]"
    by (simp add: ensure_new [OF n])
  show "\<forall>u. u \<noteq> upstream \<longrightarrow>
              listeners (ensureListenerForUpstream d p upstream cmd0) u = listeners p u"
    by (simp add: ensure_new [OF n])
  show "listeners (ensureListenerForUpstream d p upstream cmd0) upstream
          = Some (Some (Listener (localSocketPathFromUpstream upstream (database p)
                          (LocalSocketPrefix p) (LocalSocketSuffix p)) upstream))"
    if "\<not> createFails d (localSocketPathFromUpstream upstream (database p)
                                (LocalSocketPrefix p) (LocalSocketSuffix p)) upstream"
    using that by (simp add: ensure_new [OF n])
qed

theorem C7_idempotent_registration_witness:
  "foldl (\<lambda>q cmd. ensureListenerForUpstream sampleDeps q ''10.0.0.2:6379'' cmd)
       (ensureListenerForUpstream sampleDeps sampleProxy ''10.0.0.2:6379'' ''GET MOVED'')
       [''GET ASK'', ''CLUSTER SLOTS'']
     = ensureListenerForUpstream sampleDeps sampleProxy ''10.0.0.2:6379'' ''GET MOVED''
   \<and> listeners (ensureListenerForUpstream sampleDeps sampleProxy ''10.0.0.2:6379'' ''GET MOVED'')
        ''10.0.0.2:6379''
       = Some (Some (Listener ''/var/tmp/redisbetween-10.0.0.2-6379.sock'' ''10.0.0.2:6379''))
   \<and> created (ensureListenerForUpstream sampleDeps sampleProxy ''10.0.0.2:6379'' ''GET MOVED'')
       = [(''/var/tmp/redisbetween-10.0.0.2-6379.sock'', ''10.0.0.2:6379'')]
   \<and> running (ensureListenerForUpstream sampleDeps sampleProxy ''10.0.0.2:6379'' ''GET MOVED'')
       = [Some (Listener ''/var/tmp/redisbetween-10.0.0.2-6379.sock'' ''10.0.0.2:6379'')]"
proof -
  have n: "listeners sampleProxy ''10.0.0.2:6379'' = None" by (simp add: sampleProxy_def)
  have l: "listeners (ensureListenerForUpstream sampleDeps sampleProxy ''10.0.0.2:6379'' ''GET MOVED'')
        ''10.0.0.2:6379''
       = Some (Some (Listener ''/var/tmp/redisbetween-10.0.0.2-6379.sock'' ''10.0.0.2:6379''))"
    by (simp add: ensureListenerForUpstream_def createListener_def runListener_def Let_def
        localSocketPathFromUpstream_def Replace_def sampleProxy_def sampleDeps_def)
  from C7_idempotent_registration [of sampleDeps "''10.0.0.2:6379''" sampleProxy "''GET MOVED''"
      "[''GET ASK'', ''CLUSTER SLOTS'']"] n l
  show ?thesis
    by (simp add: localSocketPathFromUpstream_def Replace_def sampleProxy_def)
qed

section \<open>Redirections in a batch\<close>

lemma observeSlots_stops: "\<exists>r. fst (observeSlots d p cmd mm m) = Stop r"
  by (simp add: observeSlots_def split: prod.splits option.splits sum.splits)

lemma respLoop_ends_at_cluster_slots:
  assumes "i < length cmds" and "cmds ! i = ''CLUSTER SLOTS''"
  shows "respLoop d p cacheKeys cmds mm i (m # rest) = respLoop d p cacheKeys cmds mm i [m]"
proof -
  obtain e p1 where f: "fillCache d p cacheKeys i m = (e, p1)" by force
  show ?thesis
  proof (cases e)
    case None
    obtain r where "fst (observeSlots d p1 (cmds ! i) mm m) = Stop r"
      using observeSlots_stops by blast
    then obtain p2 where "observeSlots d p1 (cmds ! i) mm m = (Stop r, p2)"
      by (cases "observeSlots d p1 (cmds ! i) mm m") auto
    with f None assms show ?thesis by (simp add: respStep_def)
  next
    case (Some a)
    with f show ?thesis by (simp add: respStep_def)
  qed
qed

text \<open>
  C5. The claim says that the address of every MOVED or ASK error of a batch is
  registered, whatever its position and whatever the other commands. The code
  returns from the loop over the responses after a CLUSTER SLOTS response, and
  after a redirection of fewer than three parts, so the responses that follow
  are not looked at. Below: the redirection alone registers 10.0.0.2:6379;
  after a CLUSTER SLOTS response in the same batch, and after a short MOVED
  error, the same redirection registers nothing.
\<close>

theorem C5_redirect_after_cluster_slots_not_registered:
  "interceptMessages sampleDeps sampleProxy [''GET'']
       [command [''GET'', ''x'']]
       (\<lambda>mm. ([Message TypeError ''MOVED 4567 10.0.0.2:6379'' []], None))
     = (Return ([Message TypeError ''MOVED 4567 10.0.0.2:6379'' []], None),
        sampleProxy\<lparr>sent := [[command [''GET'', ''x'']]],
          cache := sampleCache\<lparr>calls := [FcGet ''x'']\<rparr>,
          listeners := [''10.0.0.2:6379'' \<mapsto>
             Some (Listener ''/var/tmp/redisbetween-10.0.0.2-6379.sock'' ''10.0.0.2:6379'')],
          created := [(''/var/tmp/redisbetween-10.0.0.2-6379.sock'', ''10.0.0.2:6379'')],
          running := [Some (Listener ''/var/tmp/redisbetween-10.0.0.2-6379.sock'' ''10.0.0.2:6379'')]\<rparr>)
   \<and> interceptMessages sampleDeps sampleProxy [''CLUSTER SLOTS'', ''GET'']
       [command [''CLUSTER'', ''SLOTS''], command [''GET'', ''x'']]
       (\<lambda>mm. ([NewArray [], Message TypeError ''MOVED 4567 10.0.0.2:6379'' []], None))
     = (Return ([NewArray [], Message TypeError ''MOVED 4567 10.0.0.2:6379'' []], None),
        sampleProxy\<lparr>sent := [[command [''CLUSTER'', ''SLOTS''], command [''GET'', ''x'']]],
          listeners := [''10.0.0.1:7000'' \<mapsto>
             Some (Listener ''/var/tmp/redisbetween-10.0.0.1-7000.sock'' ''10.0.0.1:7000'')],
          created := [(''/var/tmp/redisbetween-10.0.0.1-7000.sock'', ''10.0.0.1:7000'')],
          running := [Some (Listener ''/var/tmp/redisbetween-10.0.0.1-7000.sock'' ''10.0.0.1:7000'')]\<rparr>)
   \<and> interceptMessages sampleDeps sampleProxy [''GET'', ''GET'']
       [command [''GET'', ''x''], command [''GET'', ''y'']]
       (\<lambda>mm. ([Message TypeError ''MOVED 4567'' [],
                 Message TypeError ''MOVED 4567 10.0.0.2:6379'' []], None))
     = (Return ([Message TypeError ''MOVED 4567'' [],
                 Message TypeError ''MOVED 4567 10.0.0.2:6379'' []], None),
        sampleProxy\<lparr>sent := [[command [''GET'', ''x''], command [''GET'', ''y'']]],
          cache := sampleCache\<lparr>calls := [FcGet ''x'']\<rparr>\<rparr>)"
  by (simp add: interceptMessages_def fetchFromCache_def roundTrip_def respStep_def fillCache_def
      observeRedirect_def observeSlots_def ensureListenerForUpstream_def createListener_def
      runListener_def localSocketPathFromUpstream_def Replace_def HasPrefix_def
      Cache_Get_def Cache_set_def CacheableCommands_def
      sampleProxy_def sampleCache_def sampleDeps_def sampleDecode_def
      command_def NewArray_def bulk_def IsError_def IsArray_def IsBulkBytes_def Let_def)

section \<open>Invalidators\<close>

text \<open>
  C4. The claim says that an upstream has one invalidator, which further pooled
  connections neither create nor replace. The dialer constructs and starts an
  invalidator on every connection: after two connections to one upstream two
  invalidators run, and the map holds the second in place of the first.
\<close>

theorem C4_second_dial_replaces_invalidator:
  "dialer dialOK sampleProxy ''10.0.0.1:7000''
     = (Return True,
        sampleProxy\<lparr>inv_created := 1, invalidators := [''10.0.0.1:7000'' \<mapsto> Some 0],
          inv_running := [Some 0]\<rparr>)
   \<and> dialer dialOK (snd (dialer dialOK sampleProxy ''10.0.0.1:7000'')) ''10.0.0.1:7000''
     = (Return True,
        sampleProxy\<lparr>inv_created := 2, invalidators := [''10.0.0.1:7000'' \<mapsto> Some 1],
          inv_running := [Some 0, Some 1]\<rparr>)"
  by (simp add: dialer_def dialOK_def runInvalidator_def sampleProxy_def Let_def)

end
